theory Spec2Isabelle
  imports Complex_Main
begin

section \<open>Double-precision numbers (Python \<open>float\<close>, NumPy \<open>float64\<close>, C \<open>double\<close>)\<close>

text \<open>
  The notebook computes on IEEE 754 binary64 numbers: \<open>np.random.random\<close> yields a
  \<open>float64\<close> array, \<open>0.0\<close> is a Python float and the Cython cell declares
  \<open>double\<close>. A datum is a signed zero, a subnormal or a normal number, an infinity, or
  a NaN. \<open>Finite s m e\<close> stands for \<open>(-1)^s * m * 2^e\<close>; the sign \<open>s\<close> is \<open>True\<close>
  for a negative number. The canonical form of a double has \<open>m < 2^53\<close>,
  \<open>-1074 \<le> e \<le> 971\<close>, and \<open>e = -1074\<close> whenever \<open>m < 2^52\<close> (zero and the
  subnormals), so that every double has exactly one representation.
\<close>

datatype float64 = Finite bool nat int | Infinity bool | NaN

fun valid_f64 :: "float64 \<Rightarrow> bool" where
  "valid_f64 (Finite s m e) = (m < 2 ^ 53 \<and> - 1074 \<le> e \<and> e \<le> 971 \<and> (m < 2 ^ 52 \<longrightarrow> e = - 1074))"
| "valid_f64 (Infinity s) = True"
| "valid_f64 NaN = True"

fun is_finite :: "float64 \<Rightarrow> bool" where
  "is_finite (Finite s m e) = True"
| "is_finite (Infinity s) = False"
| "is_finite NaN = False"

fun is_nan :: "float64 \<Rightarrow> bool" where
  "is_nan NaN = True"
| "is_nan (Finite s m e) = False"
| "is_nan (Infinity s) = False"

definition pzero :: float64 where
  "pzero = Finite False 0 (- 1074)"

text \<open>The number of binary digits of a natural number (Python's \<open>int.bit_length\<close>).\<close>

fun bit_length :: "nat \<Rightarrow> nat" where
  "bit_length n = (if n = 0 then 0 else Suc (bit_length (n div 2)))"

declare bit_length.simps [simp del]

text \<open>
  Rounding to nearest, ties to even (the default and only rounding mode of Python, NumPy
  and C here): \<open>round_f64 s M E\<close> is the double nearest to the exact value
  \<open>(-1)^s * M * 2^E\<close>. The result exponent is the one that leaves 53 significant bits,
  but never below \<open>-1074\<close> (gradual underflow). When the value fits it is exact;
  otherwise the low \<open>k\<close> bits are cut off, the quotient is rounded up when the
  remainder is above one half, or equal to one half with an odd quotient, and a
  quotient that reaches \<open>2^53\<close> moves to the next exponent. A result exponent above
  \<open>971\<close> overflows to the infinity of the same sign.
\<close>

definition round_f64 :: "bool \<Rightarrow> nat \<Rightarrow> int \<Rightarrow> float64" where
  "round_f64 s M E =
     (if M = 0 then Finite s 0 (- 1074)
      else
        let e' = max (E + int (bit_length M) - 53) (- 1074) in
        if e' \<le> E then
          (if e' > 971 then Infinity s else Finite s (M * 2 ^ nat (E - e')) e')
        else
          let k = nat (e' - E);
              q = M div 2 ^ k;
              r = M mod 2 ^ k;
              q' = (if 2 * r > 2 ^ k \<or> (2 * r = 2 ^ k \<and> odd q) then q + 1 else q);
              e'' = (if q' = 2 ^ 53 then e' + 1 else e');
              m'' = (if q' = 2 ^ 53 then 2 ^ 52 else q')
          in if e'' > 971 then Infinity s else Finite s m'' e'')"

fun fneg :: "float64 \<Rightarrow> float64" where
  "fneg (Finite s m e) = Finite (\<not> s) m e"
| "fneg (Infinity s) = Infinity (\<not> s)"
| "fneg NaN = NaN"

text \<open>The exact value of a finite number in units of \<open>2^e0\<close>, for \<open>e0 \<le> e\<close>.\<close>

definition scaled :: "bool \<Rightarrow> nat \<Rightarrow> int \<Rightarrow> int \<Rightarrow> int" where
  "scaled s m e e0 = (if s then - (int m * 2 ^ nat (e - e0)) else int m * 2 ^ nat (e - e0))"

text \<open>
  Addition: NaN propagates; infinities of opposite sign give NaN; otherwise the exact sum
  is rounded. An exact zero sum is \<open>+0\<close> unless both operands are negative (then both
  are \<open>-0\<close>).
\<close>

fun fadd :: "float64 \<Rightarrow> float64 \<Rightarrow> float64" where
  "fadd NaN y = NaN"
| "fadd (Infinity s) NaN = NaN"
| "fadd (Finite s m e) NaN = NaN"
| "fadd (Infinity s) (Infinity t) = (if s = t then Infinity s else NaN)"
| "fadd (Infinity s) (Finite t m e) = Infinity s"
| "fadd (Finite s m e) (Infinity t) = Infinity t"
| "fadd (Finite s1 m1 e1) (Finite s2 m2 e2) =
     (let e0 = min e1 e2;
          c = scaled s1 m1 e1 e0 + scaled s2 m2 e2 e0
      in if c = 0 then Finite (s1 \<and> s2) 0 (- 1074)
         else round_f64 (c < 0) (nat \<bar>c\<bar>) e0)"

definition fsub :: "float64 \<Rightarrow> float64 \<Rightarrow> float64" where
  "fsub x y = fadd x (fneg y)"

text \<open>
  Multiplication: NaN propagates; zero times infinity is NaN; the sign is the exclusive
  or of the signs; the exact product of two finite numbers is rounded.
\<close>

fun fmul :: "float64 \<Rightarrow> float64 \<Rightarrow> float64" where
  "fmul NaN y = NaN"
| "fmul (Infinity s) NaN = NaN"
| "fmul (Finite s m e) NaN = NaN"
| "fmul (Infinity s) (Infinity t) = Infinity (s \<noteq> t)"
| "fmul (Infinity s) (Finite t m e) = (if m = 0 then NaN else Infinity (s \<noteq> t))"
| "fmul (Finite s m e) (Infinity t) = (if m = 0 then NaN else Infinity (s \<noteq> t))"
| "fmul (Finite s1 m1 e1) (Finite s2 m2 e2) = round_f64 (s1 \<noteq> s2) (m1 * m2) (e1 + e2)"

text \<open>The integer square root, rounded down.\<close>

fun isqrt :: "nat \<Rightarrow> nat" where
  "isqrt n =
     (if n < 2 then n
      else let r = 2 * isqrt (n div 4) in if (r + 1) * (r + 1) \<le> n then r + 1 else r)"

declare isqrt.simps [simp del]

text \<open>
  The correctly rounded square root. For a positive finite \<open>m * 2^e\<close> the exponent is
  made even, the significand is scaled by \<open>2^128\<close> so that its integer root \<open>q\<close> has
  more than 54 bits, and \<open>2 * q\<close> plus a sticky bit (set when the root is inexact) is
  rounded: no double and no midpoint of two doubles lies strictly between \<open>q\<close> and
  \<open>q + 1\<close>. The root of a zero is that zero, of a negative number or \<open>-inf\<close> NaN.
\<close>

fun fsqrt :: "float64 \<Rightarrow> float64" where
  "fsqrt NaN = NaN"
| "fsqrt (Infinity s) = (if s then NaN else Infinity False)"
| "fsqrt (Finite s m e) =
     (if m = 0 then Finite s 0 (- 1074)
      else if s then NaN
      else
        let m' = (if even e then m else 2 * m);
            e' = (if even e then e else e - 1);
            N = m' * 2 ^ 128;
            q = isqrt N
        in round_f64 False (2 * q + (if q * q = N then 0 else 1)) (e' div 2 - 65))"

text \<open>
  Comparison. Every comparison with a NaN is false (so \<open>nan == nan\<close> is \<open>False\<close>); the
  two zeros are equal.
\<close>

fun fle :: "float64 \<Rightarrow> float64 \<Rightarrow> bool" where
  "fle NaN y = False"
| "fle (Infinity s) NaN = False"
| "fle (Finite s m e) NaN = False"
| "fle (Infinity s) (Infinity t) = (s \<or> \<not> t)"
| "fle (Infinity s) (Finite t m e) = s"
| "fle (Finite s m e) (Infinity t) = (\<not> t)"
| "fle (Finite s1 m1 e1) (Finite s2 m2 e2) =
     (scaled s1 m1 e1 (min e1 e2) \<le> scaled s2 m2 e2 (min e1 e2))"

definition feq :: "float64 \<Rightarrow> float64 \<Rightarrow> bool" where
  "feq x y = (fle x y \<and> fle y x)"


section \<open>Exceptions\<close>

text \<open>
  The exceptions of the operations that \<open>pdist_python\<close> uses. \<open>NoSuchObject\<close> is not
  a Python exception: it marks a reference outside the store, which no Python program
  can hold, so that the lookup in the model is total.
\<close>

datatype error = ValueError | IndexError | TypeError | AttributeError | NoSuchObject

text \<open>
  \<open>math.sqrt\<close> (the notebook's \<open>from math import sqrt\<close>): it raises \<open>ValueError\<close>
  (math domain error) where the C function would return a NaN for an argument that is
  not one, that is for a negative number and for \<open>-inf\<close>; \<open>math.sqrt(-0.0)\<close> is
  \<open>-0.0\<close>.
\<close>

fun math_sqrt :: "float64 \<Rightarrow> error + float64" where
  "math_sqrt NaN = Inr NaN"
| "math_sqrt (Infinity s) = (if s then Inl ValueError else Inr (fsqrt (Infinity s)))"
| "math_sqrt (Finite s m e) = (if s \<and> m \<noteq> 0 then Inl ValueError else Inr (fsqrt (Finite s m e)))"

section \<open>Arrays and the store\<close>

text \<open>
  A NumPy array is its shape and its elements in row-major order. The argument of
  \<open>pdist_python\<close> is a reference to an object of the store; the objects that matter
  are arrays and nested Python lists (which have no \<open>shape\<close> attribute). Rows of
  unequal length cannot form a two-dimensional array: such input is a nested list, or
  an array of one dimension whose elements are the rows.
\<close>

record 'a ndarray =
  shape :: "nat list"
  data :: "'a list"

datatype 'a pyobject = NDArray "'a ndarray" | PyList "'a list list"

type_synonym 'a heap = "'a pyobject list"

text \<open>
  The arithmetic of the element type: the literal \<open>0.0\<close>, the operators \<open>-\<close>, \<open>*\<close>,
  \<open>+\<close> and \<open>sqrt\<close>. Python dispatches them on the operands; the model takes them as a
  parameter. \<open>f64_arith\<close> is the arithmetic the notebook runs on; \<open>real_arith\<close> is exact
  arithmetic, for statements about the distances as real numbers.
\<close>

record 'a arith =
  lit0 :: 'a
  minus_op :: "'a \<Rightarrow> 'a \<Rightarrow> 'a"
  times_op :: "'a \<Rightarrow> 'a \<Rightarrow> 'a"
  plus_op :: "'a \<Rightarrow> 'a \<Rightarrow> 'a"
  sqrt_op :: "'a \<Rightarrow> error + 'a"

definition f64_arith :: "float64 arith" where
  "f64_arith = \<lparr>lit0 = pzero, minus_op = fsub, times_op = fmul, plus_op = fadd, sqrt_op = math_sqrt\<rparr>"

definition real_sqrt_op :: "real \<Rightarrow> error + real" where
  "real_sqrt_op x = (if x < 0 then Inl ValueError else Inr (sqrt x))"

definition real_arith :: "real arith" where
  "real_arith = \<lparr>lit0 = 0, minus_op = (-), times_op = (*), plus_op = (+), sqrt_op = real_sqrt_op\<rparr>"

text \<open>\<open>xs.shape\<close>: the attribute exists on arrays; a list raises \<open>AttributeError\<close>.\<close>

definition get_shape :: "'a heap \<Rightarrow> nat \<Rightarrow> error + nat list" where
  "get_shape h r =
     (if r < length h then
        (case h ! r of NDArray a \<Rightarrow> Inr (shape a) | PyList l \<Rightarrow> Inl AttributeError)
      else Inl NoSuchObject)"

text \<open>
  \<open>np.empty(shp, np.float64)\<close>: a new array whose elements are whatever the allocated
  memory holds; \<open>junk\<close> is that memory. The new object gets the next free reference.
\<close>

definition np_empty :: "(nat \<Rightarrow> 'a) \<Rightarrow> nat list \<Rightarrow> 'a heap \<Rightarrow> nat \<times> 'a heap" where
  "np_empty junk shp h =
     (length h, h @ [NDArray \<lparr>shape = shp, data = map junk [0..<prod_list shp]\<rparr>])"

text \<open>
  \<open>a[i, k]\<close> for the non-negative indices of \<open>range\<close>: on a two-dimensional array
  the element, or \<open>IndexError\<close> out of bounds. \<open>pdist_python\<close> indexes only after it has
  unpacked a shape of two dimensions; for the other ranks the model raises \<open>IndexError\<close>
  (as NumPy does for fewer dimensions; for more it would return a sub-array), and
  \<open>TypeError\<close> for a list, which takes no tuple as index.
\<close>

definition getitem2 :: "'a heap \<Rightarrow> nat \<Rightarrow> nat \<Rightarrow> nat \<Rightarrow> error + 'a" where
  "getitem2 h r i k =
     (if r < length h then
        (case h ! r of
           NDArray a \<Rightarrow>
             (case shape a of
                [n, p] \<Rightarrow>
                  if i < n \<and> k < p \<and> i * p + k < length (data a)
                  then Inr (data a ! (i * p + k)) else Inl IndexError
              | _ \<Rightarrow> Inl IndexError)
         | PyList l \<Rightarrow> Inl TypeError)
      else Inl NoSuchObject)"

text \<open>\<open>a[i, j] = v\<close>, under the same conventions; the array is updated in place.\<close>

definition setitem2 :: "'a heap \<Rightarrow> nat \<Rightarrow> nat \<Rightarrow> nat \<Rightarrow> 'a \<Rightarrow> (error + unit) \<times> 'a heap" where
  "setitem2 h r i j v =
     (if r < length h then
        (case h ! r of
           NDArray a \<Rightarrow>
             (case shape a of
                [n, m] \<Rightarrow>
                  if i < n \<and> j < m \<and> i * m + j < length (data a)
                  then (Inr (), h[r := NDArray (a\<lparr>data := (data a)[i * m + j := v]\<rparr>)])
                  else (Inl IndexError, h)
              | _ \<Rightarrow> (Inl IndexError, h))
         | PyList l \<Rightarrow> (Inl TypeError, h))
      else (Inl NoSuchObject, h))"

section \<open>The pure Python version\<close>

text \<open>
  \<^verbatim>\<open>
  def pdist_python(xs):
      n, p = xs.shape
      D = np.empty((n, n), np.float64)
      for i in range(n):
          for j in range(n):
              s = 0.0
              for k in range(p):
                  tmp = xs[i,k] - xs[j,k]
                  s += tmp * tmp
              D[i, j] = sqrt(s)
      return D
  \<close>
  The result of a call is its outcome, an exception or the reference returned, and the
  store it leaves. \<open>n, p = xs.shape\<close> raises \<open>ValueError\<close> unless the shape has exactly
  two entries. A \<open>for\<close> loop runs its body over the indices in order, threading the
  state, and stops at the first exception; the state reached so far stays as it is.
\<close>

fun for_range :: "nat list \<Rightarrow> (nat \<Rightarrow> 's \<Rightarrow> (error + unit) \<times> 's) \<Rightarrow> 's \<Rightarrow> (error + unit) \<times> 's" where
  "for_range [] body s = (Inr (), s)"
| "for_range (i # is) body s =
     (case body i s of
        (Inl e, s') \<Rightarrow> (Inl e, s')
      | (Inr u, s') \<Rightarrow> for_range is body s')"

text \<open>The body of the loop over \<open>k\<close>: the state is the accumulator \<open>s\<close>.\<close>

definition k_body :: "'a arith \<Rightarrow> 'a heap \<Rightarrow> nat \<Rightarrow> nat \<Rightarrow> nat \<Rightarrow> nat \<Rightarrow> 'a \<Rightarrow> (error + unit) \<times> 'a" where
  "k_body ar h xs i j k s =
     (case getitem2 h xs i k of
        Inl e \<Rightarrow> (Inl e, s)
      | Inr a \<Rightarrow>
          (case getitem2 h xs j k of
             Inl e \<Rightarrow> (Inl e, s)
           | Inr b \<Rightarrow>
               (let tmp = minus_op ar a b
                in (Inr (), plus_op ar s (times_op ar tmp tmp)))))"

text \<open>The body of the loop over \<open>j\<close>: the state is the store, where \<open>D\<close> lives.\<close>

definition j_body :: "'a arith \<Rightarrow> nat \<Rightarrow> nat \<Rightarrow> nat \<Rightarrow> nat \<Rightarrow> nat \<Rightarrow> 'a heap \<Rightarrow> (error + unit) \<times> 'a heap" where
  "j_body ar xs D p i j h =
     (case for_range [0..<p] (k_body ar h xs i j) (lit0 ar) of
        (Inl e, s) \<Rightarrow> (Inl e, h)
      | (Inr u, s) \<Rightarrow>
          (case sqrt_op ar s of
             Inl e \<Rightarrow> (Inl e, h)
           | Inr v \<Rightarrow> setitem2 h D i j v))"

definition i_body :: "'a arith \<Rightarrow> nat \<Rightarrow> nat \<Rightarrow> nat \<Rightarrow> nat \<Rightarrow> nat \<Rightarrow> 'a heap \<Rightarrow> (error + unit) \<times> 'a heap" where
  "i_body ar xs D n p i h = for_range [0..<n] (j_body ar xs D p i) h"

definition pdist_python :: "'a arith \<Rightarrow> (nat \<Rightarrow> 'a) \<Rightarrow> 'a heap \<Rightarrow> nat \<Rightarrow> (error + nat) \<times> 'a heap" where
  "pdist_python ar junk h xs =
     (case get_shape h xs of
        Inl e \<Rightarrow> (Inl e, h)
      | Inr shp \<Rightarrow>
          (case shp of
             [n, p] \<Rightarrow>
               (case np_empty junk [n, n] h of
                  (D, h1) \<Rightarrow>
                    (case for_range [0..<n] (i_body ar xs D n p) h1 of
                       (Inl e, h2) \<Rightarrow> (Inl e, h2)
                     | (Inr u, h2) \<Rightarrow> (Inr D, h2)))
           | _ \<Rightarrow> (Inl ValueError, h)))"

section \<open>The contract, in the terms of the model\<close>

text \<open>
  \<open>points_at h xs a n p\<close>: the reference \<open>xs\<close> holds a rectangular table \<open>a\<close> of \<open>n\<close>
  rows and \<open>p\<close> columns. \<open>at2 a i k\<close> is its entry in row \<open>i\<close> and column \<open>k\<close>.
\<close>

definition points_at :: "'a heap \<Rightarrow> nat \<Rightarrow> 'a ndarray \<Rightarrow> nat \<Rightarrow> nat \<Rightarrow> bool" where
  "points_at h xs a n p =
     (xs < length h \<and> h ! xs = NDArray a \<and> shape a = [n, p] \<and> length (data a) = n * p)"

definition at2 :: "'a ndarray \<Rightarrow> nat \<Rightarrow> nat \<Rightarrow> 'a" where
  "at2 a i k = data a ! (i * (shape a ! 1) + k)"

text \<open>
  The distance of the specification: the square root of the sum over \<open>k\<close> from \<open>0\<close> to
  \<open>p - 1\<close> of the squared differences. In the arithmetic \<open>ar\<close> the sum is taken in the
  order of \<open>k\<close>, starting from the literal \<open>0.0\<close>.
\<close>

definition sq_diff :: "'a arith \<Rightarrow> 'a ndarray \<Rightarrow> nat \<Rightarrow> nat \<Rightarrow> nat \<Rightarrow> 'a" where
  "sq_diff ar a i j k =
     times_op ar (minus_op ar (at2 a i k) (at2 a j k)) (minus_op ar (at2 a i k) (at2 a j k))"

definition sum_sq :: "'a arith \<Rightarrow> 'a ndarray \<Rightarrow> nat \<Rightarrow> nat \<Rightarrow> 'a" where
  "sum_sq ar a i j = foldl (plus_op ar) (lit0 ar) (map (sq_diff ar a i j) [0..<shape a ! 1])"

text \<open>The \<open>n\<close> by \<open>n\<close> array whose entry \<open>(i, j)\<close> is \<open>v i j\<close>.\<close>

definition matrix_of :: "nat \<Rightarrow> (nat \<Rightarrow> nat \<Rightarrow> 'a) \<Rightarrow> 'a ndarray" where
  "matrix_of n v = \<lparr>shape = [n, n], data = map (\<lambda>q. v (q div n) (q mod n)) [0..<n * n]\<rparr>"

text \<open>All coordinates are finite numbers (no infinity, no NaN).\<close>

definition finite_coords :: "float64 ndarray \<Rightarrow> bool" where
  "finite_coords a = list_all is_finite (data a)"

text \<open>A number that is not NaN and whose sign bit is clear: \<open>+0\<close>, a positive number or \<open>+inf\<close>.\<close>

fun nonneg :: "float64 \<Rightarrow> bool" where
  "nonneg (Finite s m e) = (\<not> s)"
| "nonneg (Infinity s) = (\<not> s)"
| "nonneg NaN = False"

fun with_sign :: "bool \<Rightarrow> float64 \<Rightarrow> float64" where
  "with_sign s (Finite t m e) = Finite s m e"
| "with_sign s (Infinity t) = Infinity s"
| "with_sign s NaN = NaN"

text \<open>Two stores of the same size that agree on every reference below \<open>D\<close>.\<close>

definition same_below :: "nat \<Rightarrow> 'a heap \<Rightarrow> 'a heap \<Rightarrow> bool" where
  "same_below D h h' = (length h' = length h \<and> take D h' = take D h)"

section \<open>Example data\<close>

text \<open>
  New memory that happens to hold zeros, or NaNs. The doubles 3.0, 4.0, 5.0, 9.0, 16.0
  and 25.0.
\<close>

definition zero_mem :: "nat \<Rightarrow> float64" where
  "zero_mem q = pzero"

definition nan_mem :: "nat \<Rightarrow> float64" where
  "nan_mem q = NaN"

definition zero_mem_real :: "nat \<Rightarrow> real" where
  "zero_mem_real q = 0"

definition f64_3 :: float64 where "f64_3 = Finite False 6755399441055744 (- 51)"
definition f64_4 :: float64 where "f64_4 = Finite False 4503599627370496 (- 50)"
definition f64_5 :: float64 where "f64_5 = Finite False 5629499534213120 (- 50)"
definition f64_9 :: float64 where "f64_9 = Finite False 5066549580791808 (- 49)"
definition f64_16 :: float64 where "f64_16 = Finite False 4503599627370496 (- 48)"
definition f64_25 :: float64 where "f64_25 = Finite False 7036874417766400 (- 48)"

text \<open>
  The points \<open>[[0, 0], [3, 4]]\<close> and their distance matrix \<open>[[0, 5], [5, 0]]\<close>, in
  doubles and in real numbers.
\<close>

definition pts :: "float64 ndarray" where
  "pts = \<lparr>shape = [2, 2], data = [pzero, pzero, f64_3, f64_4]\<rparr>"

definition pts_dist :: "float64 ndarray" where
  "pts_dist = \<lparr>shape = [2, 2], data = [pzero, f64_5, f64_5, pzero]\<rparr>"

definition rpts :: "real ndarray" where
  "rpts = \<lparr>shape = [2, 2], data = [0, 0, 3, 4]\<rparr>"

definition rpts_dist :: "real ndarray" where
  "rpts_dist = \<lparr>shape = [2, 2], data = [0, 5, 5, 0]\<rparr>"

text \<open>
  Tables of shape \<open>(0, 3)\<close> and \<open>(2, 0)\<close>, the 2 by 2 matrix of zeros, an array of one
  dimension, and rows of unequal length as a nested list.
\<close>

definition no_rows :: "float64 ndarray" where
  "no_rows = \<lparr>shape = [0, 3], data = []\<rparr>"

definition no_cols :: "float64 ndarray" where
  "no_cols = \<lparr>shape = [2, 0], data = []\<rparr>"

definition zeros_2x2 :: "float64 ndarray" where
  "zeros_2x2 = \<lparr>shape = [2, 2], data = [pzero, pzero, pzero, pzero]\<rparr>"

definition line_pts :: "float64 ndarray" where
  "line_pts = \<lparr>shape = [3], data = [f64_3, f64_4, f64_5]\<rparr>"

definition ragged :: "float64 list list" where
  "ragged = [[f64_3, f64_4], [f64_5]]"

text \<open>
  The points \<open>[[nan], [0.0]]\<close> and \<open>[[inf]]\<close> with the matrices the function returns
  for them.
\<close>

definition nan_pts :: "float64 ndarray" where
  "nan_pts = \<lparr>shape = [2, 1], data = [NaN, pzero]\<rparr>"

definition nan_dist :: "float64 ndarray" where
  "nan_dist = \<lparr>shape = [2, 2], data = [NaN, NaN, NaN, pzero]\<rparr>"

definition inf_pts :: "float64 ndarray" where
  "inf_pts = \<lparr>shape = [1, 1], data = [Infinity False]\<rparr>"

definition inf_dist :: "float64 ndarray" where
  "inf_dist = \<lparr>shape = [1, 1], data = [NaN]\<rparr>"




section \<open>What the loops compute\<close>

text \<open>
  On a table of \<open>n\<close> rows and \<open>p\<close> columns every index that the loops use is in
  range, so no read raises: the loop over \<open>k\<close> returns the sum of the squared
  differences of rows \<open>i\<close> and \<open>j\<close>.
\<close>

lemma idx_lt: "i < n \<Longrightarrow> k < p \<Longrightarrow> i * p + k < n * (p::nat)"
proof -
  assume a: "i < n" "k < p"
  then have "i * p + k < i * p + p" by simp
  also have "\<dots> = (Suc i) * p" by simp
  also have "\<dots> \<le> n * p" using a(1) by (intro mult_le_mono1) simp
  finally show ?thesis .
qed

lemma getitem2_ok:
  assumes "xs < length h" "h ! xs = NDArray a" "shape a = [n, p]" "length (data a) = n * p"
    "i < n" "k < p"
  shows "getitem2 h xs i k = Inr (at2 a i k)"
  using assms idx_lt[of i n k p] by (simp add: getitem2_def at2_def)

lemma k_loop:
  assumes "xs < length h" "h ! xs = NDArray a" "shape a = [n, p]" "length (data a) = n * p"
    "i < n" "j < n"
  shows "\<forall>k\<in>set ks. k < p \<Longrightarrow>
    for_range ks (k_body ar h xs i j) s = (Inr (), foldl (plus_op ar) s (map (sq_diff ar a i j) ks))"
proof (induction ks arbitrary: s)
  case Nil
  then show ?case by simp
next
  case (Cons k ks)
  then have k: "k < p" by simp
  have "k_body ar h xs i j k s = (Inr (), plus_op ar s (sq_diff ar a i j k))"
    using getitem2_ok[OF assms(1-4) assms(5) k] getitem2_ok[OF assms(1-4) assms(6) k]
    by (simp add: k_body_def sq_diff_def Let_def)
  then show ?case using Cons by simp
qed

lemma k_loop_all:
  assumes "xs < length h" "h ! xs = NDArray a" "shape a = [n, p]" "length (data a) = n * p"
    "i < n" "j < n"
  shows "for_range [0..<p] (k_body ar h xs i j) (lit0 ar) = (Inr (), sum_sq ar a i j)"
  using k_loop[OF assms, of "[0..<p]" ar "lit0 ar"] assms(3) by (simp add: sum_sq_def)

text \<open>
  The loops over \<open>j\<close> and \<open>i\<close> write the cells of \<open>D\<close> one by one, provided that no
  square root raises; the table at \<open>xs\<close> is another object than \<open>D\<close> and is read
  unchanged throughout.
\<close>

lemma setitem2_ok:
  assumes "D < length h" "h ! D = NDArray \<lparr>shape = [n, m], data = d\<rparr>" "length d = n * m"
    "i < n" "j < m"
  shows "setitem2 h D i j v = (Inr (), h[D := NDArray \<lparr>shape = [n, m], data = d[i * m + j := v]\<rparr>])"
  using assms idx_lt[of i n j m] by (simp add: setitem2_def)

lemma j_loop:
  assumes "xs < length h0" "h0 ! xs = NDArray a" "shape a = [n, p]" "length (data a) = n * p"
    "i < n" "D < length h0" "D \<noteq> xs"
    "\<forall>j<n. sqrt_op ar (sum_sq ar a i j) = Inr (v j)"
  shows "\<forall>j\<in>set js. j < n \<Longrightarrow> length d = n * n \<Longrightarrow>
    for_range js (j_body ar xs D p i) (h0[D := NDArray \<lparr>shape = [n, n], data = d\<rparr>])
      = (Inr (), h0[D := NDArray \<lparr>shape = [n, n], data = foldl (\<lambda>d j. d[i * n + j := v j]) d js\<rparr>])"
proof (induction js arbitrary: d)
  case Nil
  then show ?case by simp
next
  case (Cons j js)
  let ?h = "h0[D := NDArray \<lparr>shape = [n, n], data = d\<rparr>]"
  have j: "j < n" using Cons.prems by simp
  have xs: "xs < length ?h" "?h ! xs = NDArray a" using assms by simp_all
  have D: "D < length ?h" "?h ! D = NDArray \<lparr>shape = [n, n], data = d\<rparr>" using assms by simp_all
  have "j_body ar xs D p i j ?h = (Inr (), ?h[D := NDArray \<lparr>shape = [n, n], data = d[i * n + j := v j]\<rparr>])"
    using k_loop_all[OF xs assms(3,4) assms(5) j] assms(8) j setitem2_ok[OF D Cons.prems(2) assms(5) j]
    by (simp add: j_body_def)
  then show ?case using Cons.IH[of "d[i * n + j := v j]"] Cons.prems by simp
qed

lemma i_loop:
  assumes "xs < length h0" "h0 ! xs = NDArray a" "shape a = [n, p]" "length (data a) = n * p"
    "D < length h0" "D \<noteq> xs"
    "\<forall>i<n. \<forall>j<n. sqrt_op ar (sum_sq ar a i j) = Inr (v i j)"
  shows "\<forall>i\<in>set is. i < n \<Longrightarrow> length d = n * n \<Longrightarrow>
    for_range is (i_body ar xs D n p) (h0[D := NDArray \<lparr>shape = [n, n], data = d\<rparr>])
      = (Inr (), h0[D := NDArray \<lparr>shape = [n, n],
            data = foldl (\<lambda>d i. foldl (\<lambda>d j. d[i * n + j := v i j]) d [0..<n]) d is\<rparr>])"
proof (induction "is" arbitrary: d)
  case Nil
  then show ?case by simp
next
  case (Cons i "is")
  have i: "i < n" using Cons.prems by simp
  have len: "length (foldl (\<lambda>d j. d[i * n + j := v i j]) d js) = length d" for js d
    by (induction js arbitrary: d) simp_all
  have "i_body ar xs D n p i (h0[D := NDArray \<lparr>shape = [n, n], data = d\<rparr>])
     = (Inr (), h0[D := NDArray \<lparr>shape = [n, n], data = foldl (\<lambda>d j. d[i * n + j := v i j]) d [0..<n]\<rparr>])"
    unfolding i_body_def
    using j_loop[OF assms(1-4) i assms(5,6), of ar "v i" "[0..<n]" d] assms(7) i Cons.prems(2) by simp
  then show ?case
    using Cons.IH[of "foldl (\<lambda>d j. d[i * n + j := v i j]) d [0..<n]"] Cons.prems len by simp
qed

text \<open>
  After the writes of all rows, the cell \<open>q\<close> of \<open>D\<close> holds the value for row
  \<open>q div n\<close> and column \<open>q mod n\<close>: nothing of the memory that \<open>np.empty\<close> handed out
  is left.
\<close>

lemma row_update_length: "length (foldl (\<lambda>d j. d[b + j := f j]) d js) = length d"
  by (induction js arbitrary: d) simp_all

lemma row_update_nth:
  "q < length d \<Longrightarrow>
   foldl (\<lambda>d j. d[b + j := f j]) d js ! q = (if b \<le> q \<and> q - b \<in> set js then f (q - b) else d ! q)"
proof (induction js rule: rev_induct)
  case Nil
  then show ?case by simp
next
  case (snoc j js)
  show ?case
  proof (cases "q = b + j")
    case True
    then show ?thesis using snoc.prems by (simp add: row_update_length)
  next
    case False
    then have "(b \<le> q \<and> q - b \<in> set (js @ [j])) = (b \<le> q \<and> q - b \<in> set js)" by auto
    then show ?thesis using False snoc by simp
  qed
qed

lemma fill_length:
  "length (foldl (\<lambda>d i. foldl (\<lambda>d j. d[i * n + j := v i j]) d [0..<n]) d is) = length d"
  by (induction "is" arbitrary: d) (simp_all add: row_update_length)

lemma in_row_iff: "0 < n \<Longrightarrow> (i * n \<le> q \<and> q - i * n < n) = (q div n = i)" for n :: nat
proof
  assume n: "0 < n" and "i * n \<le> q \<and> q - i * n < n"
  then obtain r where r: "q = i * n + r" "r < n" by (metis le_add_diff_inverse)
  then show "q div n = i" using n by simp
next
  assume n: "0 < n" and d: "q div n = i"
  have "q = i * n + q mod n" using d by (metis div_mult_mod_eq)
  moreover have "q mod n < n" using n by simp
  ultimately show "i * n \<le> q \<and> q - i * n < n" by linarith
qed

lemma fill_nth:
  assumes "0 < n" "q < length d"
  shows "foldl (\<lambda>d i. foldl (\<lambda>d j. d[i * n + j := v i j]) d [0..<n]) d is ! q
     = (if q div n \<in> set is then v (q div n) (q mod n) else d ! q)"
proof (induction "is" rule: rev_induct)
  case Nil
  then show ?case by simp
next
  case (snoc i "is")
  let ?d = "foldl (\<lambda>d i. foldl (\<lambda>d j. d[i * n + j := v i j]) d [0..<n]) d is"
  have q: "q < length ?d" using assms(2) by (simp add: fill_length)
  show ?case
  proof (cases "q div n = i")
    case True
    then have "i * n \<le> q \<and> q - i * n < n" using in_row_iff[OF assms(1)] by simp
    moreover have "q - i * n = q mod n" using True by (metis add_diff_cancel_left' div_mult_mod_eq)
    ultimately show ?thesis using True q row_update_nth[OF q, of "i * n" "v i" "[0..<n]"] by simp
  next
    case False
    then have "\<not> (i * n \<le> q \<and> q - i * n < n)" using in_row_iff[OF assms(1)] by simp
    then show ?thesis using False q row_update_nth[OF q, of "i * n" "v i" "[0..<n]"] snoc by auto
  qed
qed

lemma fill_all:
  assumes "length d = n * n"
  shows "foldl (\<lambda>d i. foldl (\<lambda>d j. d[i * n + j := v i j]) d [0..<n]) d [0..<n]
     = map (\<lambda>q. v (q div n) (q mod n)) [0..<n * n]"
proof (rule nth_equalityI)
  show "length (foldl (\<lambda>d i. foldl (\<lambda>d j. d[i * n + j := v i j]) d [0..<n]) d [0..<n])
      = length (map (\<lambda>q. v (q div n) (q mod n)) [0..<n * n])"
    using assms by (simp add: fill_length)
next
  fix q
  assume "q < length (foldl (\<lambda>d i. foldl (\<lambda>d j. d[i * n + j := v i j]) d [0..<n]) d [0..<n])"
  then have q: "q < n * n" using assms by (simp add: fill_length)
  then have n: "0 < n" by (cases n) simp_all
  have "q div n < n" using q n by (simp add: less_mult_imp_div_less)
  then show "foldl (\<lambda>d i. foldl (\<lambda>d j. d[i * n + j := v i j]) d [0..<n]) d [0..<n] ! q
      = map (\<lambda>q. v (q div n) (q mod n)) [0..<n * n] ! q"
    using fill_nth[OF n, of q d v "[0..<n]"] q assms by simp
qed

text \<open>
  The call on a table, in any arithmetic in which the square roots of the sums do not
  raise: it returns the next free reference, and the store is the old one followed by
  the matrix of the distances.
\<close>

lemma pdist_python_run:
  assumes "xs < length h" "h ! xs = NDArray a" "shape a = [n, p]" "length (data a) = n * p"
    "\<forall>i<n. \<forall>j<n. sqrt_op ar (sum_sq ar a i j) = Inr (v i j)"
  shows "pdist_python ar junk h xs = (Inr (length h), h @ [NDArray (matrix_of n v)])"
proof -
  let ?d = "map junk [0..<n * n]"
  let ?h0 = "h @ [NDArray \<lparr>shape = [n, n], data = ?d\<rparr>]"
  have h0: "xs < length ?h0" "?h0 ! xs = NDArray a" "length h < length ?h0" "length h \<noteq> xs"
    using assms(1,2) by (simp_all add: nth_append)
  have upd: "?h0[length h := NDArray \<lparr>shape = [n, n], data = d'\<rparr>] = h @ [NDArray \<lparr>shape = [n, n], data = d'\<rparr>]" for d'
    by simp
  have "for_range [0..<n] (i_body ar xs (length h) n p) (?h0[length h := NDArray \<lparr>shape = [n, n], data = ?d\<rparr>])
     = (Inr (), ?h0[length h := NDArray \<lparr>shape = [n, n],
            data = foldl (\<lambda>d i. foldl (\<lambda>d j. d[i * n + j := v i j]) d [0..<n]) ?d [0..<n]\<rparr>])"
    by (rule i_loop[OF h0(1,2) assms(3,4) h0(3,4) assms(5)]) simp_all
  then have "for_range [0..<n] (i_body ar xs (length h) n p) ?h0
     = (Inr (), h @ [NDArray (matrix_of n v)])"
    unfolding upd matrix_of_def by (simp add: fill_all)
  then show ?thesis
    using assms(1-3) by (simp add: pdist_python_def get_shape_def np_empty_def)
qed


section \<open>Facts of the double arithmetic\<close>

text \<open>
  Rounding yields a number or an infinity of the sign it is given. Hence a square is
  never negative, a sum of non-negative numbers is not, and \<open>math.sqrt\<close> does not raise
  on a sum of squares.
\<close>

lemma round_f64_not_nan: "\<not> is_nan (round_f64 s M E)"
  unfolding round_f64_def Let_def
  by (simp only: if_distrib[of is_nan] is_nan.simps if_cancel simp_thms)

lemma round_f64_nonneg: "nonneg (round_f64 False M E)"
  unfolding round_f64_def Let_def
  by (simp only: if_distrib[of nonneg] nonneg.simps if_cancel simp_thms)

lemma fsub_finite_not_nan: "is_finite x \<Longrightarrow> is_finite y \<Longrightarrow> \<not> is_nan (fsub x y)"
  by (cases x; cases y) (simp_all add: fsub_def Let_def round_f64_not_nan)

lemma fmul_self_nonneg: "\<not> is_nan x \<Longrightarrow> nonneg (fmul x x)"
  by (cases x) (simp_all add: round_f64_nonneg)

lemma fmul_self_nonneg_or_nan: "is_nan (fmul x x) \<or> nonneg (fmul x x)"
  by (cases x) (simp_all add: round_f64_nonneg)

lemma scaled_nonneg: "0 \<le> scaled False m e e0"
  by (simp add: scaled_def)

lemma fadd_nonneg: "nonneg x \<Longrightarrow> nonneg y \<Longrightarrow> nonneg (fadd x y)"
proof (cases x; cases y)
  fix s1 m1 e1 s2 m2 e2
  assume x: "x = Finite s1 m1 e1" and y: "y = Finite s2 m2 e2" and nn: "nonneg x" "nonneg y"
  then have s: "s1 = False" "s2 = False" by simp_all
  have "\<not> scaled False m1 e1 (min e1 e2) + scaled False m2 e2 (min e1 e2) < 0"
    using scaled_nonneg[of m1 e1 "min e1 e2"] scaled_nonneg[of m2 e2 "min e1 e2"] by linarith
  then show ?thesis using x y s by (simp add: Let_def round_f64_nonneg)
qed simp_all

lemma fadd_nonneg_or_nan:
  "is_nan x \<or> nonneg x \<Longrightarrow> is_nan y \<or> nonneg y \<Longrightarrow> is_nan (fadd x y) \<or> nonneg (fadd x y)"
  using fadd_nonneg[of x y] by (cases x; cases y) auto

lemma fsqrt_nonneg: "nonneg x \<Longrightarrow> nonneg (fsqrt x)"
  by (cases x) (simp_all add: Let_def round_f64_nonneg)

lemma math_sqrt_ok: "is_nan x \<or> nonneg x \<Longrightarrow> math_sqrt x = Inr (fsqrt x)"
  by (cases x) auto

lemma fle_zero_nonneg: "nonneg x \<Longrightarrow> fle pzero x"
  by (cases x) (simp_all add: pzero_def scaled_def)

lemma feq_refl: "\<not> is_nan x \<Longrightarrow> feq x x"
  by (cases x) (simp_all add: feq_def)

lemma nonneg_not_nan: "nonneg x \<Longrightarrow> \<not> is_nan x"
  by (cases x) simp_all

text \<open>Rounding does not depend on the sign, so a square does not.\<close>

lemma round_f64_sign: "round_f64 s M E = with_sign s (round_f64 False M E)"
  unfolding round_f64_def Let_def
  by (simp only: if_distrib[of "with_sign s"] with_sign.simps)

lemma fmul_with_sign: "fmul (with_sign s x) (with_sign s x) = fmul (with_sign t x) (with_sign t x)"
  by (cases x) simp_all

lemma fmul_round_self: "fmul (round_f64 s M E) (round_f64 s M E) = fmul (round_f64 t M E) (round_f64 t M E)"
  using round_f64_sign[of s M E] round_f64_sign[of t M E] fmul_with_sign[of s "round_f64 False M E" t]
  by simp

lemma scaled_neg: "scaled (\<not> s) m e e0 = - scaled s m e e0"
  by (simp add: scaled_def)

lemma fsq_sym: "fmul (fsub x y) (fsub x y) = fmul (fsub y x) (fsub y x)"
proof (cases x; cases y)
  fix s1 m1 e1 s2 m2 e2
  assume x: "x = Finite s1 m1 e1" and y: "y = Finite s2 m2 e2"
  define c where "c = scaled s1 m1 e1 (min e1 e2) - scaled s2 m2 e2 (min e1 e2)"
  have xy: "fsub x y = (if c = 0 then Finite (s1 \<and> \<not> s2) 0 (- 1074) else round_f64 (c < 0) (nat \<bar>c\<bar>) (min e1 e2))"
    using x y by (simp add: fsub_def Let_def scaled_neg c_def)
  have yx: "fsub y x = (if c = 0 then Finite (s2 \<and> \<not> s1) 0 (- 1074) else round_f64 (- c < 0) (nat \<bar>c\<bar>) (min e1 e2))"
    using x y by (simp add: fsub_def Let_def scaled_neg c_def min.commute abs_minus_commute)
  show ?thesis
  proof (cases "c = 0")
    case True
    then show ?thesis using xy yx by (simp add: round_f64_def)
  next
    case False
    then show ?thesis using xy yx fmul_round_self[of "c < 0" "nat \<bar>c\<bar>" "min e1 e2" "- c < 0"] by simp
  qed
qed (auto simp: fsub_def)

text \<open>The difference of a finite number and itself is \<open>+0.0\<close>, and so are its square and root.\<close>

lemma fsub_self: "is_finite x \<Longrightarrow> fsub x x = pzero"
  by (cases x) (simp_all add: fsub_def Let_def scaled_neg pzero_def)

lemma fmul_pzero: "fmul pzero pzero = pzero"
  by (simp add: pzero_def round_f64_def)

lemma fadd_pzero: "fadd pzero pzero = pzero"
  by (simp add: pzero_def scaled_def)

lemma fsqrt_pzero: "fsqrt pzero = pzero"
  by (simp add: pzero_def)


section \<open>Evaluating the arithmetic on literals\<close>

text \<open>
  \<open>isqrt\<close> is the integer square root and \<open>bit_length\<close> the number of binary digits;
  both are determined by their bounds, which gives their values on literals at once.
\<close>

lemma isqrt_correct: "isqrt n * isqrt n \<le> n \<and> n < (isqrt n + 1) * (isqrt n + 1)"
proof (induction n rule: isqrt.induct)
  case (1 n)
  show ?case
  proof (cases "n < 2")
    case True
    then have "n = 0 \<or> n = 1" by linarith
    moreover have "isqrt 0 = 0" "isqrt 1 = 1" by (simp_all add: isqrt.simps[of 0] isqrt.simps[of "Suc 0"])
    ultimately show ?thesis by auto
  next
    case False
    define r0 where "r0 = isqrt (n div 4)"
    have ih: "r0 * r0 \<le> n div 4" "n div 4 < (r0 + 1) * (r0 + 1)"
      using "1.IH"[OF False] by (simp_all add: r0_def)
    have lo: "(2 * r0) * (2 * r0) \<le> n"
    proof -
      have "(2 * r0) * (2 * r0) = 4 * (r0 * r0)" by simp
      also have "\<dots> \<le> 4 * (n div 4)" using ih(1) by simp
      also have "\<dots> \<le> n" by simp
      finally show ?thesis .
    qed
    have hi: "n < (2 * r0 + 2) * (2 * r0 + 2)"
    proof -
      have "n < 4 * (n div 4) + 4" by presburger
      also have "\<dots> = 4 * (n div 4 + 1)" by simp
      also have "\<dots> \<le> 4 * ((r0 + 1) * (r0 + 1))" using ih(2) by simp
      also have "\<dots> = (2 * r0 + 2) * (2 * r0 + 2)" by (simp add: algebra_simps)
      finally show ?thesis .
    qed
    have eq: "isqrt n = (if (2 * r0 + 1) * (2 * r0 + 1) \<le> n then 2 * r0 + 1 else 2 * r0)"
      using False by (subst isqrt.simps) (simp add: r0_def Let_def)
    show ?thesis
    proof (cases "(2 * r0 + 1) * (2 * r0 + 1) \<le> n")
      case True
      then show ?thesis using eq hi by (simp add: add.assoc)
    next
      case False
      then show ?thesis using eq lo by simp
    qed
  qed
qed

lemma isqrt_unique:
  assumes "r * r \<le> n" "n < (r + 1) * (r + 1)"
  shows "isqrt n = r"
proof -
  let ?q = "isqrt n"
  have q: "?q * ?q \<le> n" "n < (?q + 1) * (?q + 1)" using isqrt_correct[of n] by simp_all
  have "\<not> ?q < r"
  proof
    assume "?q < r"
    then have "?q + 1 \<le> r" by simp
    then have "(?q + 1) * (?q + 1) \<le> r * r" by (simp only: mult_le_mono)
    then show False using assms(1) q(2) by linarith
  qed
  moreover have "\<not> r < ?q"
  proof
    assume "r < ?q"
    then have "r + 1 \<le> ?q" by simp
    then have "(r + 1) * (r + 1) \<le> ?q * ?q" by (simp only: mult_le_mono)
    then show False using assms(2) q(1) by linarith
  qed
  ultimately show ?thesis by linarith
qed

lemma bit_length_bound: "n < 2 ^ bit_length n \<and> (0 < n \<longrightarrow> 2 ^ (bit_length n - 1) \<le> n)"
proof (induction n rule: bit_length.induct)
  case (1 n)
  show ?case
  proof (cases "n = 0")
    case True
    then show ?thesis by (simp add: bit_length.simps[of 0])
  next
    case False
    have eq: "bit_length n = Suc (bit_length (n div 2))"
      using False by (subst bit_length.simps) simp
    have ih: "n div 2 < 2 ^ bit_length (n div 2)" "0 < n div 2 \<longrightarrow> 2 ^ (bit_length (n div 2) - 1) \<le> n div 2"
      using "1.IH"[OF False] by simp_all
    have up: "n < 2 ^ bit_length n"
    proof -
      have "n < 2 * (n div 2) + 2" by presburger
      also have "\<dots> \<le> 2 * 2 ^ bit_length (n div 2)" using ih(1) by simp
      finally show ?thesis by (simp add: eq)
    qed
    have lo: "2 ^ (bit_length n - 1) \<le> n"
    proof (cases "n div 2 = 0")
      case True
      then have "n = 1" using False by presburger
      moreover have "bit_length n = 1" using eq True by (simp add: bit_length.simps[of 0])
      ultimately show ?thesis by simp
    next
      case nz: False
      then have b: "0 < bit_length (n div 2)" by (subst bit_length.simps) simp
      have "2 ^ (bit_length n - 1) = (2::nat) * 2 ^ (bit_length (n div 2) - 1)"
        using b by (simp add: eq flip: power_Suc)
      also have "\<dots> \<le> 2 * (n div 2)" using ih(2) nz by simp
      also have "\<dots> \<le> n" by simp
      finally show ?thesis .
    qed
    show ?thesis using up lo by simp
  qed
qed

lemma bit_length_unique:
  assumes "2 ^ b \<le> n" "n < 2 ^ Suc b"
  shows "bit_length n = Suc b"
proof -
  have "(0::nat) < 2 ^ b" by simp
  then have n: "0 < n" using assms(1) by linarith
  have q: "n < 2 ^ bit_length n" "2 ^ (bit_length n - 1) \<le> n" using bit_length_bound[of n] n by simp_all
  have "(2::nat) ^ b < 2 ^ bit_length n" using assms(1) q(1) by linarith
  then have 1: "b < bit_length n" by simp
  have "(2::nat) ^ (bit_length n - 1) < 2 ^ Suc b" using assms(2) q(2) by linarith
  then have 2: "bit_length n - 1 < Suc b" by (simp only: power_strict_increasing_iff one_less_numeral_iff semiring_norm)
  show ?thesis using 1 2 by linarith
qed


lemma bit_length_0: "bit_length 0 = 0"
  by (simp add: bit_length.simps)

lemma bit_length_Suc0: "bit_length (Suc 0) = 1"
  by (simp add: bit_length.simps[of "Suc 0"] bit_length_0)

lemma bit_length_shift: "2 ^ j \<le> n \<Longrightarrow> bit_length n = j + bit_length (n div 2 ^ j)"
proof (induction j arbitrary: n)
  case 0
  then show ?case by simp
next
  case (Suc j)
  then have "2 * 2 ^ j \<le> n" by simp
  moreover have "(0::nat) < 2 * 2 ^ j" by simp
  ultimately have n: "n \<noteq> 0" "2 ^ j \<le> n div 2" by linarith+
  have "bit_length n = Suc (bit_length (n div 2))" using n(1) by (subst bit_length.simps) simp
  also have "\<dots> = Suc (j + bit_length (n div 2 div 2 ^ j))" using Suc.IH[OF n(2)] by simp
  also have "n div 2 div 2 ^ j = n div 2 ^ Suc j" by (simp add: div_mult2_eq)
  finally show ?case by simp
qed

lemma bit_length_numeral:
  "bit_length (numeral k) =
     (if (numeral k :: nat) < 18446744073709551616 then 1 + bit_length (numeral k div 2)
      else 64 + bit_length (numeral k div 18446744073709551616))"
proof (cases "(numeral k :: nat) < 18446744073709551616")
  case True
  then show ?thesis by (subst bit_length.simps) simp
next
  case False
  then have "2 ^ 64 \<le> (numeral k :: nat)" by simp
  from bit_length_shift[OF this] False show ?thesis by simp
qed

lemmas round_f64_numeral = round_f64_def[of _ "numeral k" "numeral e" for k e]
  round_f64_def[of _ "numeral k" "- numeral e" for k e]
  round_f64_def[of _ "numeral k" "0"  for k]
  round_f64_def[of _ "Suc 0" "numeral e" for e]
  round_f64_def[of _ "Suc 0" "- numeral e" for e]
  round_f64_def[of _ "Suc 0" "0"]
  round_f64_def[of _ "0"]

lemmas f64_eval = bit_length_0 bit_length_Suc0 bit_length_numeral 
  round_f64_numeral scaled_def fsub_def


text \<open>
  A value that is a double is rounded to itself; adding a zero to a non-zero double
  gives that double.
\<close>

lemma bit_length_mult_pow: "0 < m \<Longrightarrow> bit_length (m * 2 ^ j) = j + bit_length m"
proof -
  assume m: "0 < m"
  then have "2 ^ j \<le> m * 2 ^ j" by simp
  from bit_length_shift[OF this] show ?thesis by simp
qed

lemma valid_exponent:
  assumes "valid_f64 (Finite s m e)" "0 < m"
  shows "max (e + int (bit_length m) - 53) (- 1074) = e"
proof -
  have v: "m < 2 ^ 53" "- 1074 \<le> e" "m < 2 ^ 52 \<longrightarrow> e = - 1074" using assms(1) by simp_all
  have b: "m < 2 ^ bit_length m" "2 ^ (bit_length m - 1) \<le> m"
    using bit_length_bound[of m] assms(2) by simp_all
  have "(2::nat) ^ (bit_length m - 1) < 2 ^ 53" using b(2) v(1) by linarith
  then have "bit_length m - 1 < 53" by (simp only: power_strict_increasing_iff one_less_numeral_iff semiring_norm)
  then have le: "bit_length m \<le> 53" by linarith
  show ?thesis
  proof (cases "m < 2 ^ 52")
    case True
    then show ?thesis using v(3) le by simp
  next
    case False
    then have "(2::nat) ^ 52 < 2 ^ bit_length m" using b(1) by linarith
    then have "52 < bit_length m" by (simp only: power_strict_increasing_iff one_less_numeral_iff semiring_norm)
    then have "bit_length m = 53" using le by linarith
    then show ?thesis using v(2) by simp
  qed
qed

lemma round_f64_exact:
  assumes "valid_f64 (Finite s m e)" "0 < m"
  shows "round_f64 s (m * 2 ^ j) (e - int j) = Finite s m e"
proof -
  have v: "m < 2 ^ 53" "e \<le> 971" using assms(1) by simp_all
  have e': "max (e - int j + int (bit_length (m * 2 ^ j)) - 53) (- 1074) = e"
    using valid_exponent[OF assms] by (simp add: bit_length_mult_pow[OF assms(2)])
  show ?thesis
  proof (cases "j = 0")
    case True
    then show ?thesis using e' v assms(2) by (simp add: round_f64_def)
  next
    case False
    then have "\<not> e \<le> e - int j" "nat (e - (e - int j)) = j" by simp_all
    then show ?thesis using e' v assms(2) by (simp add: round_f64_def Let_def)
  qed
qed

lemma fadd_zero_left:
  assumes "valid_f64 (Finite s m e)" "0 < m"
  shows "fadd (Finite t 0 (- 1074)) (Finite s m e) = Finite s m e"
proof -
  have e: "- 1074 \<le> e" using assms(1) by simp
  define j where "j = nat (e + 1074)"
  have E: "- 1074 = e - int j" using e by (simp add: j_def)
  have r: "round_f64 s (m * 2 ^ j) (- 1074) = Finite s m e"
    using round_f64_exact[OF assms, of j] E by simp
  have j': "nat (e + 1074) = j" by (simp add: j_def)
  have pos: "(int m * 2 ^ j < 0) = False" "(int m * 2 ^ j = 0) = False"
    using assms(2) by (simp_all add: mult_less_0_iff)
  have mn: "min (- 1074) e = - 1074" "min e (- 1074) = - 1074" using e by simp_all
  show ?thesis using assms(2) r by (cases s) (simp_all add: scaled_def j' mn nat_mult_distrib nat_power_eq pos)
qed

lemma fadd_zero_right:
  assumes "valid_f64 (Finite s m e)" "0 < m"
  shows "fadd (Finite s m e) (Finite t 0 (- 1074)) = Finite s m e"
proof -
  have e: "- 1074 \<le> e" using assms(1) by simp
  define j where "j = nat (e + 1074)"
  have E: "- 1074 = e - int j" using e by (simp add: j_def)
  have r: "round_f64 s (m * 2 ^ j) (- 1074) = Finite s m e"
    using round_f64_exact[OF assms, of j] E by simp
  have j': "nat (e + 1074) = j" by (simp add: j_def)
  have pos: "(int m * 2 ^ j < 0) = False" "(int m * 2 ^ j = 0) = False"
    using assms(2) by (simp_all add: mult_less_0_iff)
  have mn: "min (- 1074) e = - 1074" "min e (- 1074) = - 1074" using e by simp_all
  show ?thesis using assms(2) r by (cases s) (simp_all add: scaled_def j' mn nat_mult_distrib nat_power_eq pos)
qed


section \<open>Every operation returns a double in canonical form\<close>

lemma pow2_less_iff: "((2::nat) ^ a < 2 ^ b) = (a < b)"
  by simp

lemma pow2_le_iff: "((2::nat) ^ a \<le> 2 ^ b) = (a \<le> b)"
  by simp

lemma valid_round_f64: "valid_f64 (round_f64 s M E)"
proof (cases "M = 0")
  case True
  then show ?thesis by (simp add: round_f64_def)
next
  case False
  define bl where "bl = bit_length M"
  define e' where "e' = max (E + int bl - 53) (- 1074)"
  have M: "M < 2 ^ bl" "2 ^ (bl - 1) \<le> M" "0 < bl"
    using bit_length_bound[of M] False bit_length_shift[of 0 M]
    by (simp_all add: bl_def bit_length.simps[of M])
  have e'_lo: "- 1074 \<le> e'" and e'_ge: "E + int bl - 53 \<le> e'" by (simp_all add: e'_def)
  have e'_cases: "e' = - 1074 \<or> e' = E + int bl - 53" by (auto simp: e'_def max_def)
  show ?thesis
  proof (cases "e' \<le> E")
    case True
    define j where "j = nat (E - e')"
    define m where "m = M * 2 ^ j"
    have blm: "bit_length m = j + bl" using False by (simp add: m_def bl_def bit_length_mult_pow)
    have "int (j + bl) \<le> 53" using True e'_ge by (simp add: j_def)
    then have le53: "j + bl \<le> 53" by simp
    have "m < 2 ^ (j + bl)" using bit_length_bound[of m] blm by simp
    also have "\<dots> \<le> 2 ^ 53" using le53 by (simp only: pow2_le_iff)
    finally have m53: "m < 2 ^ 53" .
    have sub: "e' = - 1074" if "m < 2 ^ 52"
    proof (rule ccontr)
      assume "e' \<noteq> - 1074"
      then have "e' = E + int bl - 53" using e'_cases by simp
      then have "int (j + bl) = 53" using True by (simp add: j_def)
      then have "j + bl = 53" by simp
      moreover have "0 < m" using False by (simp add: m_def)
      ultimately have "2 ^ 52 \<le> m" using bit_length_bound[of m] blm by simp
      then show False using that by simp
    qed
    show ?thesis
      using False True m53 sub e'_lo
      by (simp add: round_f64_def Let_def e'_def[symmetric] bl_def[symmetric] j_def[symmetric] m_def[symmetric])
  next
    case False': False
    define k where "k = nat (e' - E)"
    define q where "q = M div 2 ^ k"
    define r where "r = M mod 2 ^ k"
    define q' where "q' = (if 2 * r > 2 ^ k \<or> (2 * r = 2 ^ k \<and> odd q) then q + 1 else q)"
    have k: "int k = e' - E" using False' by (simp add: k_def)
    have "int bl \<le> 53 + int k" using e'_ge k by simp
    then have blk: "bl \<le> 53 + k" by linarith
    have "M < 2 ^ (53 + k)" using M(1) blk
      by (meson le_trans less_le_not_le linorder_not_less pow2_le_iff)
    then have "M < 2 ^ 53 * 2 ^ k" by (simp add: power_add)
    then have q53: "q < 2 ^ 53" unfolding q_def by (rule less_mult_imp_div_less)
    then have q'53: "q' \<le> 2 ^ 53" by (simp add: q'_def)
    have q'q: "q \<le> q'" by (simp add: q'_def)
    have sub: "e' = - 1074" if "q' < 2 ^ 52"
    proof (rule ccontr)
      assume "e' \<noteq> - 1074"
      then have "e' = E + int bl - 53" using e'_cases by simp
      then have "int bl = 53 + int k" using k by simp
      then have bl: "bl = 53 + k" by linarith
      have "(2::nat) ^ 52 * 2 ^ k \<le> M" using M(2) bl by (simp add: power_add)
      then have "(2::nat) ^ 52 * 2 ^ k div 2 ^ k \<le> M div 2 ^ k" by (rule div_le_mono)
      then have "2 ^ 52 \<le> q" by (simp add: q_def)
      then show False using that q'q by simp
    qed
    have eq: "round_f64 s M E =
        (if (if q' = 2 ^ 53 then e' + 1 else e') > 971 then Infinity s
         else Finite s (if q' = 2 ^ 53 then 2 ^ 52 else q') (if q' = 2 ^ 53 then e' + 1 else e'))"
      using False False'[unfolded e'_def bl_def]
      unfolding round_f64_def Let_def e'_def bl_def k_def q_def r_def q'_def
      by (simp only: if_False)
    show ?thesis
    proof (cases "q' = 2 ^ 53")
      case True
      then show ?thesis using e'_lo unfolding eq by simp
    next
      case F: False
      then have "q' < 2 ^ 53" using q'53 by simp
      then show ?thesis using e'_lo F sub unfolding eq by simp
    qed
  qed
qed

lemma valid_fadd: "valid_f64 (fadd x y)"
  by (cases x; cases y) (simp_all add: Let_def valid_round_f64)

lemma valid_fsub: "valid_f64 (fsub x y)"
  by (simp add: fsub_def valid_fadd)

lemma valid_fmul: "valid_f64 (fmul x y)"
  by (cases x; cases y) (simp_all add: valid_round_f64)

lemma valid_fsqrt: "valid_f64 (fsqrt x)"
  by (cases x) (simp_all add: Let_def valid_round_f64)

section \<open>The arithmetic on known values\<close>

text \<open>
  The arithmetic on known values: \<open>0.1 + 0.2\<close> is \<open>0.30000000000000004\<close>,
  \<open>0.1 * 0.1\<close> is \<open>0.010000000000000002\<close>, \<open>sqrt(2.0)\<close> is \<open>1.4142135623730951\<close>,
  the largest double added to itself overflows, \<open>1.0 + 2^-53\<close> is a tie and rounds to
  the even \<open>1.0\<close>, and half of the smallest subnormal is a tie and rounds to zero.
\<close>

lemma known_sum:
  "fadd (Finite False 7205759403792794 (- 56)) (Finite False 7205759403792794 (- 55))
     = Finite False 5404319552844596 (- 54)"
  by (simp add: f64_eval)

lemma known_product:
  "fmul (Finite False 7205759403792794 (- 56)) (Finite False 7205759403792794 (- 56))
     = Finite False 5764607523034236 (- 59)"
  by (simp add: f64_eval)

lemma isqrt_two: "isqrt (2 * 4503599627370496 * 2 ^ 128) = 1750711592962066872460373069"
  by (rule isqrt_unique) simp_all

lemma known_root: "fsqrt (Finite False 4503599627370496 (- 51)) = Finite False 6369051672525773 (- 52)"
  using isqrt_two by (simp add: f64_eval)

lemma known_overflow:
  "fadd (Finite False 9007199254740991 971) (Finite False 9007199254740991 971) = Infinity False"
  by (simp add: f64_eval)

lemma known_tie:
  "fadd (Finite False 4503599627370496 (- 52)) (Finite False 4503599627370496 (- 105))
     = Finite False 4503599627370496 (- 52)"
  by (simp add: f64_eval)

lemma known_underflow:
  "fmul (Finite False 1 (- 1074)) (Finite False 4503599627370496 (- 53)) = Finite False 0 (- 1074)"
  "fmul (Finite False 1 (- 1074)) (Finite False 6755399441055744 (- 52)) = Finite False 2 (- 1074)"
  by (simp_all add: f64_eval)

section \<open>Exact arithmetic\<close>


lemma foldl_plus_upt: "foldl (+) s (map f [0..<p]) = s + (\<Sum>k<p. f k)" for s :: real
  by (induction p) (simp_all add: add.assoc)

lemma real_sum_sq:
  "shape a = [n, p] \<Longrightarrow> sum_sq real_arith a i j = (\<Sum>k<p. (at2 a i k - at2 a j k)\<^sup>2)"
  by (simp add: sum_sq_def sq_diff_def real_arith_def foldl_plus_upt power2_eq_square)

lemma real_sqrt_ok:
  "shape a = [n, p] \<Longrightarrow>
   sqrt_op real_arith (sum_sq real_arith a i j) = Inr (sqrt (\<Sum>k<p. (at2 a i k - at2 a j k)\<^sup>2))"
proof -
  assume a: "shape a = [n, p]"
  have op: "sqrt_op real_arith = real_sqrt_op" by (simp add: real_arith_def)
  have "0 \<le> (\<Sum>k<p. (at2 a i k - at2 a j k)\<^sup>2)" by (simp add: sum_nonneg)
  then show ?thesis unfolding op real_sum_sq[OF a] by (simp add: real_sqrt_op_def)
qed



lemma matrix_of_shape: "shape (matrix_of n v) = [n, n]"
  by (simp add: matrix_of_def)

lemma matrix_of_length: "length (data (matrix_of n v)) = n * n"
  by (simp add: matrix_of_def)

lemma matrix_of_at2: "i < n \<Longrightarrow> j < n \<Longrightarrow> at2 (matrix_of n v) i j = v i j"
  using idx_lt[of i n j n] by (simp add: matrix_of_def at2_def)

lemma points_at_elem:
  assumes "points_at h xs a n p" "i < n" "k < p"
  shows "at2 a i k \<in> set (data a)"
  using assms idx_lt[of i n k p] by (simp add: points_at_def at2_def)


section \<open>The result of a call on a rectangular table\<close>

text \<open>
  In double arithmetic a sum of squares is NaN or non-negative, so the square root never
  raises: the call returns the matrix of \<open>fsqrt (sum_sq f64_arith a i j)\<close>. In exact
  arithmetic it returns the matrix of the Euclidean distances.
\<close>

lemma foldl_fadd_nonneg_or_nan:
  "is_nan s \<or> nonneg s \<Longrightarrow> \<forall>x\<in>set xs. is_nan x \<or> nonneg x \<Longrightarrow>
   is_nan (foldl fadd s xs) \<or> nonneg (foldl fadd s xs)"
proof (induction xs arbitrary: s)
  case Nil
  then show ?case by simp
next
  case (Cons x xs)
  have "is_nan (fadd s x) \<or> nonneg (fadd s x)"
    using Cons.prems by (intro fadd_nonneg_or_nan) simp_all
  then show ?case using Cons by simp
qed

lemma foldl_fadd_nonneg:
  "nonneg s \<Longrightarrow> \<forall>x\<in>set xs. nonneg x \<Longrightarrow> nonneg (foldl fadd s xs)"
proof (induction xs arbitrary: s)
  case Nil
  then show ?case by simp
next
  case (Cons x xs)
  have "nonneg (fadd s x)" using Cons.prems by (intro fadd_nonneg) simp_all
  then show ?case using Cons by simp
qed

lemma f64_ops:
  "lit0 f64_arith = pzero" "minus_op f64_arith = fsub" "times_op f64_arith = fmul"
  "plus_op f64_arith = fadd" "sqrt_op f64_arith = math_sqrt"
  by (simp_all add: f64_arith_def)

lemma sum_sq_f64: "sum_sq f64_arith a i j = foldl fadd pzero (map (sq_diff f64_arith a i j) [0..<shape a ! 1])"
  by (simp add: sum_sq_def f64_ops)

lemma sq_diff_f64:
  "sq_diff f64_arith a i j k = fmul (fsub (at2 a i k) (at2 a j k)) (fsub (at2 a i k) (at2 a j k))"
  by (simp add: sq_diff_def f64_ops)

lemma sum_sq_f64_nonneg_or_nan: "is_nan (sum_sq f64_arith a i j) \<or> nonneg (sum_sq f64_arith a i j)"
  unfolding sum_sq_f64
  by (rule foldl_fadd_nonneg_or_nan) (auto simp: pzero_def sq_diff_f64 fmul_self_nonneg_or_nan)

lemma sum_sq_f64_sym: "sum_sq f64_arith a i j = sum_sq f64_arith a j i"
proof -
  have "sq_diff f64_arith a i j = sq_diff f64_arith a j i"
    by (rule ext) (simp add: sq_diff_f64 fsq_sym)
  then show ?thesis by (simp add: sum_sq_f64)
qed

lemma pdist_python_f64:
  assumes "points_at h xs a n p"
  shows "pdist_python f64_arith junk h xs
     = (Inr (length h), h @ [NDArray (matrix_of n (\<lambda>i j. fsqrt (sum_sq f64_arith a i j)))])"
proof -
  have "\<forall>i<n. \<forall>j<n. sqrt_op f64_arith (sum_sq f64_arith a i j) = Inr (fsqrt (sum_sq f64_arith a i j))"
    using sum_sq_f64_nonneg_or_nan by (simp add: f64_ops math_sqrt_ok)
  then show ?thesis
    using assms pdist_python_run[of xs h a n p f64_arith "\<lambda>i j. fsqrt (sum_sq f64_arith a i j)" junk]
    by (simp add: points_at_def)
qed

lemma pdist_python_real:
  assumes "points_at h xs a n p"
  shows "pdist_python real_arith junk h xs
     = (Inr (length h), h @ [NDArray (matrix_of n (\<lambda>i j. sqrt (\<Sum>k<p. (at2 a i k - at2 a j k)\<^sup>2)))])"
proof -
  have "\<forall>i<n. \<forall>j<n. sqrt_op real_arith (sum_sq real_arith a i j)
      = Inr (sqrt (\<Sum>k<p. (at2 a i k - at2 a j k)\<^sup>2))"
    using assms by (simp add: points_at_def real_sqrt_ok)
  then show ?thesis
    using assms pdist_python_run[of xs h a n p real_arith "\<lambda>i j. sqrt (\<Sum>k<p. (at2 a i k - at2 a j k)\<^sup>2)" junk]
    by (simp add: points_at_def)
qed

text \<open>
  With finite coordinates no difference is NaN, so the sums of squares are non-negative
  numbers or \<open>+inf\<close>, and the sum for a row and itself is \<open>+0.0\<close>.
\<close>

lemma finite_sq_diff_nonneg:
  assumes "points_at h xs a n p" "finite_coords a" "i < n" "j < n" "k < p"
  shows "nonneg (sq_diff f64_arith a i j k)"
proof -
  have "is_finite (at2 a i k)" "is_finite (at2 a j k)"
    using points_at_elem[OF assms(1,3,5)] points_at_elem[OF assms(1,4,5)] assms(2)
    by (simp_all add: finite_coords_def list_all_iff)
  then show ?thesis by (simp add: sq_diff_f64 fmul_self_nonneg fsub_finite_not_nan)
qed

lemma finite_sum_sq_nonneg:
  assumes "points_at h xs a n p" "finite_coords a" "i < n" "j < n"
  shows "nonneg (sum_sq f64_arith a i j)"
proof -
  have p: "shape a ! 1 = p" using assms(1) by (simp add: points_at_def)
  show ?thesis unfolding sum_sq_f64 p
    using finite_sq_diff_nonneg[OF assms] by (intro foldl_fadd_nonneg) (simp_all add: pzero_def)
qed

lemma foldl_fadd_pzero: "\<forall>x\<in>set xs. x = pzero \<Longrightarrow> foldl fadd pzero xs = pzero"
  by (induction xs) (simp_all add: fadd_pzero)

lemma finite_sum_sq_diag:
  assumes "points_at h xs a n p" "finite_coords a" "i < n"
  shows "sum_sq f64_arith a i i = pzero"
proof -
  have p: "shape a ! 1 = p" using assms(1) by (simp add: points_at_def)
  have "sq_diff f64_arith a i i k = pzero" if "k < p" for k
  proof -
    have "is_finite (at2 a i k)"
      using points_at_elem[OF assms(1,3) that] assms(2) by (simp add: finite_coords_def list_all_iff)
    then show ?thesis by (simp add: sq_diff_f64 fsub_self fmul_pzero)
  qed
  then show ?thesis unfolding sum_sq_f64 p by (intro foldl_fadd_pzero) simp
qed


section \<open>The store outside the new array\<close>

text \<open>
  Whatever the input and the outcome, the only object that the loops write is the one
  at the reference \<open>D\<close>, the last of the store.
\<close>

lemma for_range_invariant:
  assumes "\<And>i s r s'. P s \<Longrightarrow> body i s = (r, s') \<Longrightarrow> P s'"
  shows "P s \<Longrightarrow> for_range is body s = (r, s') \<Longrightarrow> P s'"
proof (induction "is" arbitrary: s)
  case Nil
  then show ?case by simp
next
  case (Cons i "is")
  obtain r1 s1 where b: "body i s = (r1, s1)" by (cases "body i s")
  have P1: "P s1" using assms[OF Cons.prems(1) b] .
  show ?case
  proof (cases r1)
    case (Inl e)
    then show ?thesis using Cons.prems(2) b P1 by simp
  next
    case (Inr u)
    then show ?thesis using Cons.prems(2) b Cons.IH[OF P1] by simp
  qed
qed

lemma setitem2_same_below: "setitem2 h D i j v = (r, h') \<Longrightarrow> same_below D h h'"
  by (auto simp: setitem2_def same_below_def split: if_splits pyobject.splits list.splits)

lemma j_body_same_below:
  assumes "same_below D h0 h" "j_body ar xs D p i j h = (r, h')"
  shows "same_below D h0 h'"
proof -
  have "same_below D h h'"
    using assms(2) setitem2_same_below[of h D i j _ r h']
    by (auto simp: j_body_def same_below_def split: prod.splits sum.splits)
  then show ?thesis using assms(1) by (simp add: same_below_def)
qed

lemma i_body_same_below:
  assumes "same_below D h0 h" "i_body ar xs D n p i h = (r, h')"
  shows "same_below D h0 h'"
  using for_range_invariant[of "same_below D h0" "j_body ar xs D p i" h "[0..<n]" r h']
    j_body_same_below assms unfolding i_body_def by blast

lemma loops_same_below:
  assumes "for_range is (i_body ar xs D n p) h = (r, h')"
  shows "same_below D h h'"
  using for_range_invariant[of "same_below D h" "i_body ar xs D n p" h "is" r h']
    i_body_same_below assms by (metis same_below_def)

lemma pdist_python_keeps_store: "take (length h) (snd (pdist_python ar junk h xs)) = h"
proof (cases "get_shape h xs")
  case (Inl e)
  then show ?thesis by (simp add: pdist_python_def)
next
  case (Inr shp)
  show ?thesis
  proof (cases "\<exists>n p. shp = [n, p]")
    case False
    then show ?thesis using Inr by (auto simp: pdist_python_def split: list.splits)
  next
    case True
    then obtain n p where shp: "shp = [n, p]" by blast
    let ?h1 = "h @ [NDArray \<lparr>shape = [n, n], data = map junk [0..<n * n]\<rparr>]"
    obtain r h2 where l: "for_range [0..<n] (i_body ar xs (length h) n p) ?h1 = (r, h2)"
      by (cases "for_range [0..<n] (i_body ar xs (length h) n p) ?h1")
    have "take (length h) h2 = h" using loops_same_below[OF l] by (simp add: same_below_def)
    then show ?thesis using Inr shp l by (cases r) (simp_all add: pdist_python_def np_empty_def)
  qed
qed

section \<open>Input that is not a table of two dimensions\<close>

lemma pdist_python_wrong_rank:
  assumes "xs < length h" "h ! xs = NDArray a" "length (shape a) \<noteq> 2"
  shows "pdist_python ar junk h xs = (Inl ValueError, h)"
proof -
  have "\<not> (\<exists>n p. shape a = [n, p])" using assms(3) by auto
  then show ?thesis using assms(1,2)
    by (auto simp: pdist_python_def get_shape_def split: list.splits)
qed

lemma pdist_python_list:
  assumes "xs < length h" "h ! xs = PyList l"
  shows "pdist_python ar junk h xs = (Inl AttributeError, h)"
  using assms by (simp add: pdist_python_def get_shape_def)

lemma sum_sq_no_columns: "shape a = [n, 0] \<Longrightarrow> sum_sq ar a i j = lit0 ar"
  by (simp add: sum_sq_def)

lemma pdist_python_no_columns:
  assumes "points_at h xs a n 0"
  shows "pdist_python f64_arith junk h xs = (Inr (length h), h @ [NDArray (matrix_of n (\<lambda>i j. pzero))])"
proof -
  have "shape a = [n, 0]" using assms by (simp add: points_at_def)
  then have "sum_sq f64_arith a i j = pzero" for i j by (simp add: sum_sq_no_columns f64_ops)
  then show ?thesis using pdist_python_f64[OF assms, of junk] by (simp add: fsqrt_pzero)
qed

section \<open>The examples, evaluated\<close>

lemma list_of_length_4: "length xs = 4 \<Longrightarrow> xs = [xs ! 0, xs ! 1, xs ! 2, xs ! 3]"
  by (auto simp: numeral_eq_Suc length_Suc_conv)

lemma matrix_of_1: "matrix_of (Suc 0) v = \<lparr>shape = [Suc 0, Suc 0], data = [v 0 0]\<rparr>"
  by (simp add: matrix_of_def)

lemma upt_literals: "[0..<2] = [0, 1]" "[0..<3] = [0, 1, 2]" "[0..<4] = [0, 1, 2, 3]"
  "[0..<9] = [0, 1, 2, 3, 4, 5, 6, 7, 8]"
  by (simp_all add: upt_rec)

lemma matrix_of_2: "matrix_of 2 v = \<lparr>shape = [2, 2], data = [v 0 0, v 0 1, v 1 0, v 1 1]\<rparr>"
  by (simp add: matrix_of_def upt_literals)

lemma pts_sub:
  "fsub pzero f64_3 = fneg f64_3" "fsub pzero f64_4 = fneg f64_4"
  "fsub f64_3 pzero = f64_3" "fsub f64_4 pzero = f64_4"
proof -
  have v: "valid_f64 (Finite s 6755399441055744 (- 51))" "valid_f64 (Finite s 4503599627370496 (- 50))"
    for s by simp_all
  show "fsub pzero f64_3 = fneg f64_3"
    using fadd_zero_left[where s=True and t=False, OF v(1)] by (simp add: fsub_def pzero_def f64_3_def del: fadd.simps)
  show "fsub pzero f64_4 = fneg f64_4"
    using fadd_zero_left[where s=True and t=False, OF v(2)] by (simp add: fsub_def pzero_def f64_4_def del: fadd.simps)
  show "fsub f64_3 pzero = f64_3"
    using fadd_zero_right[where s=False and t=True, OF v(1)] by (simp add: fsub_def pzero_def f64_3_def del: fadd.simps)
  show "fsub f64_4 pzero = f64_4"
    using fadd_zero_right[where s=False and t=True, OF v(2)] by (simp add: fsub_def pzero_def f64_4_def del: fadd.simps)
qed

lemma pts_sq:
  "fmul (fneg f64_3) (fneg f64_3) = f64_9" "fmul (fneg f64_4) (fneg f64_4) = f64_16"
  "fmul f64_3 f64_3 = f64_9" "fmul f64_4 f64_4 = f64_16"
  by (simp_all add: f64_3_def f64_4_def f64_9_def f64_16_def f64_eval)

lemma pts_add: "fadd pzero f64_9 = f64_9" "fadd f64_9 f64_16 = f64_25"
proof -
  show "fadd pzero f64_9 = f64_9" unfolding pzero_def f64_9_def by (rule fadd_zero_left) simp_all
  show "fadd f64_9 f64_16 = f64_25" by (simp add: f64_9_def f64_16_def f64_25_def f64_eval)
qed

lemma isqrt_25: "isqrt (7036874417766400 * 2 ^ 128) = 1547425049106725343623905280"
  by (rule isqrt_unique) simp_all

lemma pts_sqrt: "fsqrt f64_25 = f64_5"
  using isqrt_25 by (simp add: f64_25_def f64_5_def f64_eval)

lemma pts_points_at: "points_at [NDArray pts] 0 pts 2 2"
  by (simp add: points_at_def pts_def)

lemma pts_finite: "finite_coords pts"
  by (simp add: finite_coords_def pts_def pzero_def f64_3_def f64_4_def)

lemma pts_sum_sq_01: "sum_sq f64_arith pts 0 (Suc 0) = f64_25"
  by (simp add: sum_sq_f64 sq_diff_f64 at2_def pts_def upt_literals pts_sub pts_sq pts_add)

lemma ndarray_eqI: "shape m = s \<Longrightarrow> data m = d \<Longrightarrow> m = \<lparr>shape = s, data = d\<rparr>"
  by (cases m) simp

lemma matrix_2_eqI:
  assumes "shape m = [2, 2]" "length (data m) = 4"
    "at2 m 0 0 = a" "at2 m 0 1 = b" "at2 m 1 0 = c" "at2 m 1 1 = d"
  shows "m = \<lparr>shape = [2, 2], data = [a, b, c, d]\<rparr>"
proof -
  have "data m = [data m ! 0, data m ! 1, data m ! 2, data m ! 3]"
    using assms(2) by (rule list_of_length_4)
  moreover have "data m ! 0 = a" "data m ! 1 = b" "data m ! 2 = c" "data m ! 3 = d"
    using assms(1,3-6) by (simp_all add: at2_def numeral_3_eq_3)
  ultimately have "data m = [a, b, c, d]" by simp
  then show ?thesis using assms(1) by (rule ndarray_eqI[rotated])
qed

lemma pts_values:
  "fsqrt (sum_sq f64_arith pts 0 0) = pzero" "fsqrt (sum_sq f64_arith pts 0 1) = f64_5"
  "fsqrt (sum_sq f64_arith pts 1 0) = f64_5" "fsqrt (sum_sq f64_arith pts 1 1) = pzero"
proof -
  show "fsqrt (sum_sq f64_arith pts 0 0) = pzero" "fsqrt (sum_sq f64_arith pts 1 1) = pzero"
    using finite_sum_sq_diag[OF pts_points_at pts_finite] by (simp_all add: fsqrt_pzero)
  show "fsqrt (sum_sq f64_arith pts 0 1) = f64_5" using pts_sum_sq_01 by (simp add: pts_sqrt)
  then show "fsqrt (sum_sq f64_arith pts 1 0) = f64_5" using sum_sq_f64_sym[of pts 1 0] by simp
qed

lemma rpts_points_at: "points_at [NDArray rpts] 0 rpts 2 2"
  by (simp add: points_at_def rpts_def)

lemma sqrt_25: "sqrt 25 = 5"
  using real_sqrt_abs[of 5] by simp

lemma rpts_values:
  "sqrt (\<Sum>k<2. (at2 rpts 0 k - at2 rpts 0 k)\<^sup>2) = 0" "sqrt (\<Sum>k<2. (at2 rpts 0 k - at2 rpts 1 k)\<^sup>2) = 5"
  "sqrt (\<Sum>k<2. (at2 rpts 1 k - at2 rpts 0 k)\<^sup>2) = 5" "sqrt (\<Sum>k<2. (at2 rpts 1 k - at2 rpts 1 k)\<^sup>2) = 0"
  by (simp_all add: at2_def rpts_def lessThan_Suc numeral_2_eq_2 sqrt_25)

lemma nan_pts_points_at: "points_at [NDArray nan_pts] 0 nan_pts 2 1"
  by (simp add: points_at_def nan_pts_def)

lemma nan_pts_values:
  "fsqrt (sum_sq f64_arith nan_pts 0 0) = NaN" "fsqrt (sum_sq f64_arith nan_pts 0 1) = NaN"
  "fsqrt (sum_sq f64_arith nan_pts 1 0) = NaN" "fsqrt (sum_sq f64_arith nan_pts 1 1) = pzero"
proof -
  have z: "fsub pzero pzero = pzero" by (simp add: fsub_self pzero_def)
  have n: "fsub NaN x = NaN" "fsub pzero NaN = NaN" "fadd pzero NaN = NaN" for x
    by (simp_all add: fsub_def pzero_def)
  show "fsqrt (sum_sq f64_arith nan_pts 0 0) = NaN" "fsqrt (sum_sq f64_arith nan_pts 0 1) = NaN"
    "fsqrt (sum_sq f64_arith nan_pts 1 0) = NaN" "fsqrt (sum_sq f64_arith nan_pts 1 1) = pzero"
    by (simp_all add: sum_sq_f64 sq_diff_f64 at2_def nan_pts_def z n fmul_pzero fadd_pzero fsqrt_pzero)
qed

lemma nan_pts_result:
  "pdist_python f64_arith junk [NDArray nan_pts] 0 = (Inr 1, [NDArray nan_pts, NDArray nan_dist])"
  using pdist_python_f64[OF nan_pts_points_at, of junk]
  by (simp add: matrix_of_2 nan_pts_values[unfolded One_nat_def] nan_dist_def)

lemma inf_pts_points_at: "points_at [NDArray inf_pts] 0 inf_pts 1 1"
  by (simp add: points_at_def inf_pts_def)

lemma inf_pts_result:
  "pdist_python f64_arith junk [NDArray inf_pts] 0 = (Inr 1, [NDArray inf_pts, NDArray inf_dist])"
proof -
  have "fsqrt (sum_sq f64_arith inf_pts 0 0) = NaN"
    by (simp add: sum_sq_f64 sq_diff_f64 at2_def inf_pts_def fsub_def pzero_def)
  then show ?thesis using pdist_python_f64[OF inf_pts_points_at, of junk]
    by (simp add: matrix_of_1 inf_dist_def)
qed











lemma no_cols_points_at: "points_at [NDArray no_cols] 0 no_cols 2 0"
  by (simp add: points_at_def no_cols_def)

section \<open>The claims\<close>

text \<open>
  C1. For a rectangular table of shape \<open>(n, p)\<close> the call returns a new array of shape
  \<open>(n, n)\<close> whose entry \<open>(i, j)\<close> is the square root of the sum over \<open>k\<close> of the squared
  differences of rows \<open>i\<close> and \<open>j\<close>: in double arithmetic with the sum taken in the order
  of \<open>k\<close> from \<open>0.0\<close>, and in exact arithmetic with the sum of real numbers.
\<close>

theorem pdist_python_entries:
  "(points_at h xs a n p \<longrightarrow>
      (\<exists>m. pdist_python f64_arith junk h xs = (Inr (length h), h @ [NDArray m])
         \<and> shape m = [n, n] \<and> length (data m) = n * n
         \<and> (\<forall>i<n. \<forall>j<n. at2 m i j = fsqrt (sum_sq f64_arith a i j))))
   \<and> (points_at hr xr b nr pr \<longrightarrow>
      (\<exists>m. pdist_python real_arith junkr hr xr = (Inr (length hr), hr @ [NDArray m])
         \<and> shape m = [nr, nr] \<and> length (data m) = nr * nr
         \<and> (\<forall>i<nr. \<forall>j<nr. at2 m i j = sqrt (\<Sum>k<pr. (at2 b i k - at2 b j k)\<^sup>2))))"
proof (intro conjI impI)
  assume "points_at h xs a n p"
  from pdist_python_f64[OF this, of junk]
  show "\<exists>m. pdist_python f64_arith junk h xs = (Inr (length h), h @ [NDArray m])
         \<and> shape m = [n, n] \<and> length (data m) = n * n
         \<and> (\<forall>i<n. \<forall>j<n. at2 m i j = fsqrt (sum_sq f64_arith a i j))"
    by (intro exI[of _ "matrix_of n (\<lambda>i j. fsqrt (sum_sq f64_arith a i j))"])
       (simp add: matrix_of_shape matrix_of_length matrix_of_at2)
next
  assume "points_at hr xr b nr pr"
  from pdist_python_real[OF this, of junkr]
  show "\<exists>m. pdist_python real_arith junkr hr xr = (Inr (length hr), hr @ [NDArray m])
         \<and> shape m = [nr, nr] \<and> length (data m) = nr * nr
         \<and> (\<forall>i<nr. \<forall>j<nr. at2 m i j = sqrt (\<Sum>k<pr. (at2 b i k - at2 b j k)\<^sup>2))"
    by (intro exI[of _ "matrix_of nr (\<lambda>i j. sqrt (\<Sum>k<pr. (at2 b i k - at2 b j k)\<^sup>2))"])
       (simp add: matrix_of_shape matrix_of_length matrix_of_at2)
qed

theorem pdist_python_entries_witness:
  "pdist_python f64_arith zero_mem [NDArray pts] 0 = (Inr 1, [NDArray pts, NDArray pts_dist])
   \<and> pdist_python real_arith zero_mem_real [NDArray rpts] 0 = (Inr 1, [NDArray rpts, NDArray rpts_dist])"
proof
  from pdist_python_entries[where h="[NDArray pts]" and xs=0 and a=pts and n=2 and p=2 and junk=zero_mem,
      THEN conjunct1, THEN mp, OF pts_points_at]
  obtain m where m: "pdist_python f64_arith zero_mem [NDArray pts] 0 = (Inr 1, [NDArray pts, NDArray m])"
    "shape m = [2, 2]" "length (data m) = 4" "\<forall>i<2. \<forall>j<2. at2 m i j = fsqrt (sum_sq f64_arith pts i j)"
    by auto
  have "m = pts_dist" unfolding pts_dist_def
    using m(2,3,4) pts_values by (intro matrix_2_eqI) simp_all
  then show "pdist_python f64_arith zero_mem [NDArray pts] 0 = (Inr 1, [NDArray pts, NDArray pts_dist])"
    using m(1) by simp
next
  from pdist_python_entries[where hr="[NDArray rpts]" and xr=0 and b=rpts and nr=2 and pr=2
      and junkr=zero_mem_real, THEN conjunct2, THEN mp, OF rpts_points_at]
  obtain m where m: "pdist_python real_arith zero_mem_real [NDArray rpts] 0 = (Inr 1, [NDArray rpts, NDArray m])"
    "shape m = [2, 2]" "length (data m) = 4"
    "\<forall>i<2. \<forall>j<2. at2 m i j = sqrt (\<Sum>k<2. (at2 rpts i k - at2 rpts j k)\<^sup>2)"
    by auto
  have "m = rpts_dist" unfolding rpts_dist_def
    using m(2,3,4) rpts_values by (intro matrix_2_eqI) simp_all
  then show "pdist_python real_arith zero_mem_real [NDArray rpts] 0 = (Inr 1, [NDArray rpts, NDArray rpts_dist])"
    using m(1) by simp
qed

text \<open>
  C3. Claimed: a table with \<open>p = 0\<close> columns is rejected with an error and yields no
  result matrix. The function has no check of \<open>p\<close>: for shape \<open>(2, 0)\<close> the loop over
  \<open>k\<close> does not run and the call returns the 2 by 2 matrix of zeros.
\<close>

theorem pdist_python_rejects_counterexample:
  "points_at [NDArray no_cols] 0 no_cols 2 0
   \<and> pdist_python f64_arith zero_mem [NDArray no_cols] 0 = (Inr 1, [NDArray no_cols, NDArray zeros_2x2])"
  using pdist_python_no_columns[OF no_cols_points_at, of zero_mem] no_cols_points_at
  by (simp add: matrix_of_2 zeros_2x2_def)

text \<open>
  C3, amended. Input that is not an array of two dimensions raises before anything is
  allocated, and the store stays as it was: an array of any other rank raises
  \<open>ValueError\<close> when its shape is unpacked, and a nested list (rows of unequal length
  are a nested list or an array of one dimension) raises \<open>AttributeError\<close>. A table of
  shape \<open>(n, 0)\<close> is not rejected: the call returns the \<open>n\<close> by \<open>n\<close> matrix of \<open>0.0\<close>.
\<close>

theorem pdist_python_malformed:
  "(xs < length h \<and> h ! xs = NDArray a \<and> length (shape a) \<noteq> 2
      \<longrightarrow> pdist_python ar junk h xs = (Inl ValueError, h))
   \<and> (xs < length h \<and> h ! xs = PyList l
      \<longrightarrow> pdist_python ar junk h xs = (Inl AttributeError, h))
   \<and> (points_at hf xf af n 0
      \<longrightarrow> pdist_python f64_arith junkf hf xf
           = (Inr (length hf), hf @ [NDArray (matrix_of n (\<lambda>i j. pzero))]))"
  using pdist_python_wrong_rank[of xs h a ar junk] pdist_python_list[of xs h l ar junk]
    pdist_python_no_columns[of hf xf af n junkf]
  by blast

theorem pdist_python_malformed_witness:
  "pdist_python f64_arith zero_mem [NDArray line_pts] 0 = (Inl ValueError, [NDArray line_pts])
   \<and> pdist_python f64_arith zero_mem [PyList ragged] 0 = (Inl AttributeError, [PyList ragged])
   \<and> pdist_python f64_arith zero_mem [NDArray no_cols] 0
       = (Inr 1, [NDArray no_cols, NDArray (matrix_of 2 (\<lambda>i j. pzero))])"
proof (intro conjI)
  have "0 < length [NDArray line_pts] \<and> [NDArray line_pts] ! 0 = NDArray line_pts
      \<and> length (shape line_pts) \<noteq> 2"
    by (simp add: line_pts_def)
  then show "pdist_python f64_arith zero_mem [NDArray line_pts] 0 = (Inl ValueError, [NDArray line_pts])"
    using pdist_python_malformed[where xs=0 and h="[NDArray line_pts]" and a=line_pts
        and ar=f64_arith and junk=zero_mem, THEN conjunct1]
    by blast
next
  have "0 < length [PyList ragged :: float64 pyobject] \<and> [PyList ragged] ! 0 = PyList ragged"
    by simp
  then show "pdist_python f64_arith zero_mem [PyList ragged] 0 = (Inl AttributeError, [PyList ragged])"
    using pdist_python_malformed[where xs=0 and h="[PyList ragged]" and l=ragged
        and ar=f64_arith and junk=zero_mem, THEN conjunct2, THEN conjunct1]
    by blast
next
  show "pdist_python f64_arith zero_mem [NDArray no_cols] 0
       = (Inr 1, [NDArray no_cols, NDArray (matrix_of 2 (\<lambda>i j. pzero))])"
    using pdist_python_malformed[where hf="[NDArray no_cols]" and xf=0 and af=no_cols and n=2
        and junkf=zero_mem, THEN conjunct2, THEN conjunct2] no_cols_points_at
    by simp
qed

text \<open>
  C5. Claimed: for every table of shape \<open>(n, p)\<close>, \<open>D[i][j] == D[j][i]\<close>. A NaN
  coordinate makes both entries NaN, and a NaN is not equal to itself.
\<close>

theorem pdist_python_symmetric_counterexample:
  "pdist_python f64_arith zero_mem [NDArray nan_pts] 0 = (Inr 1, [NDArray nan_pts, NDArray nan_dist])
   \<and> at2 nan_dist 0 1 = NaN \<and> at2 nan_dist 1 0 = NaN
   \<and> \<not> feq (at2 nan_dist 0 1) (at2 nan_dist 1 0)"
  using nan_pts_result[of zero_mem] by (simp add: at2_def nan_dist_def feq_def)

text \<open>
  C5, amended. For every table the entries \<open>(i, j)\<close> and \<open>(j, i)\<close> are the same double
  (both NaN, or the same number); when all coordinates are finite, neither is NaN and
  \<open>D[i][j] == D[j][i]\<close> holds.
\<close>

theorem pdist_python_symmetric:
  "points_at h xs a n p \<Longrightarrow>
   \<exists>m. pdist_python f64_arith junk h xs = (Inr (length h), h @ [NDArray m])
     \<and> (\<forall>i<n. \<forall>j<n. at2 m i j = at2 m j i \<and> (finite_coords a \<longrightarrow> feq (at2 m i j) (at2 m j i)))"
proof -
  assume a: "points_at h xs a n p"
  let ?m = "matrix_of n (\<lambda>i j. fsqrt (sum_sq f64_arith a i j))"
  have "at2 ?m i j = at2 ?m j i \<and> (finite_coords a \<longrightarrow> feq (at2 ?m i j) (at2 ?m j i))"
    if ij: "i < n" "j < n" for i j
  proof
    show eq: "at2 ?m i j = at2 ?m j i" using ij sum_sq_f64_sym[of a i j] by (simp add: matrix_of_at2)
    show "finite_coords a \<longrightarrow> feq (at2 ?m i j) (at2 ?m j i)"
    proof
      assume "finite_coords a"
      from finite_sum_sq_nonneg[OF a this ij] have "\<not> is_nan (at2 ?m i j)"
        using ij by (simp add: matrix_of_at2 fsqrt_nonneg nonneg_not_nan)
      then show "feq (at2 ?m i j) (at2 ?m j i)" using eq feq_refl by simp
    qed
  qed
  then show ?thesis using pdist_python_f64[OF a, of junk] by blast
qed

theorem pdist_python_symmetric_witness:
  "\<exists>m. pdist_python f64_arith zero_mem [NDArray pts] 0 = (Inr 1, [NDArray pts, NDArray m])
     \<and> at2 m 0 1 = at2 m 1 0 \<and> feq (at2 m 0 1) (at2 m 1 0)"
proof -
  from pdist_python_symmetric[OF pts_points_at, of zero_mem]
  obtain m where m: "pdist_python f64_arith zero_mem [NDArray pts] 0 = (Inr 1, [NDArray pts, NDArray m])"
    "\<forall>i<2. \<forall>j<2. at2 m i j = at2 m j i \<and> (finite_coords pts \<longrightarrow> feq (at2 m i j) (at2 m j i))"
    by auto
  have lt: "(0::nat) < 2" "(1::nat) < 2" by simp_all
  from m(2) lt have "at2 m 0 1 = at2 m 1 0 \<and> (finite_coords pts \<longrightarrow> feq (at2 m 0 1) (at2 m 1 0))"
    by blast
  then show ?thesis using m(1) pts_finite by blast
qed

text \<open>
  C6. Claimed: for every table of shape \<open>(n, p)\<close> the diagonal is exactly \<open>0.0\<close>. For a
  point with an infinite coordinate, \<open>inf - inf\<close> is NaN and so is the diagonal entry.
\<close>

theorem pdist_python_diagonal_counterexample:
  "pdist_python f64_arith zero_mem [NDArray inf_pts] 0 = (Inr 1, [NDArray inf_pts, NDArray inf_dist])
   \<and> at2 inf_dist 0 0 = NaN \<and> \<not> feq (at2 inf_dist 0 0) pzero"
  using inf_pts_result[of zero_mem] by (simp add: at2_def inf_dist_def feq_def)

text \<open>
  C6, amended. When all coordinates are finite, every diagonal entry of the returned
  matrix is the double \<open>+0.0\<close>, so \<open>D[i][i] == 0.0\<close>.
\<close>

theorem pdist_python_diagonal:
  "points_at h xs a n p \<Longrightarrow> finite_coords a \<Longrightarrow>
   \<exists>m. pdist_python f64_arith junk h xs = (Inr (length h), h @ [NDArray m])
     \<and> (\<forall>i<n. at2 m i i = pzero \<and> feq (at2 m i i) pzero)"
proof -
  assume a: "points_at h xs a n p" "finite_coords a"
  let ?m = "matrix_of n (\<lambda>i j. fsqrt (sum_sq f64_arith a i j))"
  have z: "feq pzero pzero" by (simp add: feq_def pzero_def)
  have "at2 ?m i i = pzero \<and> feq (at2 ?m i i) pzero" if "i < n" for i
    using finite_sum_sq_diag[OF a that] that z by (simp add: matrix_of_at2 fsqrt_pzero)
  then show ?thesis using pdist_python_f64[OF a(1), of junk] by blast
qed

theorem pdist_python_diagonal_witness:
  "\<exists>m. pdist_python f64_arith zero_mem [NDArray pts] 0 = (Inr 1, [NDArray pts, NDArray m])
     \<and> at2 m 0 0 = pzero \<and> at2 m 1 1 = pzero \<and> feq (at2 m 1 1) pzero"
proof -
  from pdist_python_diagonal[OF pts_points_at pts_finite, of zero_mem]
  obtain m where m: "pdist_python f64_arith zero_mem [NDArray pts] 0 = (Inr 1, [NDArray pts, NDArray m])"
    "\<forall>i<2. at2 m i i = pzero \<and> feq (at2 m i i) pzero"
    by auto
  have lt: "(0::nat) < 2" "(1::nat) < 2" by simp_all
  from m(2) lt have "at2 m 0 0 = pzero \<and> at2 m 1 1 = pzero \<and> feq (at2 m 1 1) pzero"
    by blast
  then show ?thesis using m(1) by blast
qed

text \<open>
  C7. When all coordinates are finite, every entry of the returned matrix is at least
  \<open>0.0\<close> in the order of the doubles.
\<close>

theorem pdist_python_nonnegative:
  "points_at h xs a n p \<Longrightarrow> finite_coords a \<Longrightarrow>
   \<exists>m. pdist_python f64_arith junk h xs = (Inr (length h), h @ [NDArray m])
     \<and> (\<forall>i<n. \<forall>j<n. fle pzero (at2 m i j))"
proof -
  assume a: "points_at h xs a n p" "finite_coords a"
  let ?m = "matrix_of n (\<lambda>i j. fsqrt (sum_sq f64_arith a i j))"
  have "fle pzero (at2 ?m i j)" if "i < n" "j < n" for i j
    using finite_sum_sq_nonneg[OF a that] that by (simp add: matrix_of_at2 fsqrt_nonneg fle_zero_nonneg)
  then show ?thesis using pdist_python_f64[OF a(1), of junk] by blast
qed

theorem pdist_python_nonnegative_witness:
  "\<exists>m. pdist_python f64_arith zero_mem [NDArray pts] 0 = (Inr 1, [NDArray pts, NDArray m])
     \<and> fle pzero (at2 m 0 0) \<and> fle pzero (at2 m 0 1) \<and> fle pzero (at2 m 1 0) \<and> fle pzero (at2 m 1 1)"
  using pdist_python_nonnegative[OF pts_points_at pts_finite, of zero_mem] by auto




text \<open>
  C9. A table with no rows (and any number of columns) gives the empty matrix of shape
  \<open>(0, 0)\<close>, in any arithmetic; nothing is raised.
\<close>

theorem pdist_python_no_rows:
  "points_at h xs a 0 p \<Longrightarrow>
   pdist_python ar junk h xs = (Inr (length h), h @ [NDArray \<lparr>shape = [0, 0], data = []\<rparr>])"
  using pdist_python_run[of xs h a 0 p ar "\<lambda>i j. lit0 ar" junk]
  by (simp add: points_at_def matrix_of_def)

theorem pdist_python_no_rows_witness:
  "pdist_python f64_arith zero_mem [NDArray no_rows] 0
     = (Inr 1, [NDArray no_rows, NDArray \<lparr>shape = [0, 0], data = []\<rparr>])"
  using pdist_python_no_rows[of "[NDArray no_rows]" 0 no_rows 3 f64_arith zero_mem]
  by (simp add: points_at_def no_rows_def)

text \<open>
  C10. The call leaves every object of the store as it was, the input among them,
  whatever the input and the outcome, and only adds objects after them. Its result
  depends on the table alone: two calls on the same table return the same matrix,
  whatever the store around it and whatever the new memory held before it was filled.
\<close>

theorem pdist_python_pure:
  "take (length h0) (snd (pdist_python ar junk0 h0 xs0)) = h0
   \<and> (points_at h xs a n p \<and> points_at h' xs' a n p \<longrightarrow>
        (\<exists>m. pdist_python f64_arith junk h xs = (Inr (length h), h @ [NDArray m])
            \<and> pdist_python f64_arith junk' h' xs' = (Inr (length h'), h' @ [NDArray m])))"
  using pdist_python_keeps_store[of h0 ar junk0 xs0]
    pdist_python_f64[of h xs a n p junk] pdist_python_f64[of h' xs' a n p junk']
  by blast

theorem pdist_python_pure_witness:
  "take 1 (snd (pdist_python f64_arith zero_mem [NDArray pts] 0)) = [NDArray pts]
   \<and> (\<exists>m. pdist_python f64_arith zero_mem [NDArray pts] 0 = (Inr 1, [NDArray pts, NDArray m])
         \<and> pdist_python f64_arith nan_mem [NDArray pts, NDArray pts_dist] 0
            = (Inr 2, [NDArray pts, NDArray pts_dist, NDArray m]))"
proof -
  have p: "points_at [NDArray pts] 0 pts 2 2 \<and> points_at [NDArray pts, NDArray pts_dist] 0 pts 2 2"
    by (simp add: points_at_def pts_def)
  show ?thesis
    using pdist_python_pure[where ?h0.0="[NDArray pts]" and ar=f64_arith and ?junk0.0=zero_mem and ?xs0.0=0
        and h="[NDArray pts]" and xs=0 and a=pts and n=2 and p=2 and junk=zero_mem
        and h'="[NDArray pts, NDArray pts_dist]" and xs'=0 and junk'=nan_mem] p
    by (simp add: numeral_2_eq_2)
qed


end
